theory Spec2Isabelle
  imports Complex_Main "HOL-Library.AList" "HOL-Library.Product_Lexorder" "HOL-Library.Word"
begin

section \<open>Conventions\<close>

text \<open>
  Python integers are \<open>int\<close>, counters are \<open>nat\<close>. Python floats are the binary64 values
  of the section on Python numbers, and every float operation of the scripts is modelled
  with its rounding. The one exception is the bucket test of calculate\_avg\_lock.py,
  which compares \<^verbatim>\<open>d / 86400\<close> with 30, 90, 180 and 365 for an integer \<open>d\<close>: rounding to
  the nearest float is monotone and leaves these four integers as they are, and a
  quotient that is not one of them is further from them than half the spacing of the
  floats there, so the comparisons of the exact quotient give the same answers.
\<close>

section \<open>calculate\_avg\_lock.py: distribution buckets\<close>

text \<open>
  \<^verbatim>\<open>
  buckets = {"< 1 month": 0, "1-3 months": 0, "3-6 months": 0,
             "6-12 months": 0, "1-2 years": 0}
  for d in durations:
      days = d / 86400
      if days < 30:    buckets["< 1 month"] += 1
      elif days < 90:  buckets["1-3 months"] += 1
      elif days < 180: buckets["3-6 months"] += 1
      elif days < 365: buckets["6-12 months"] += 1
      else:            buckets["1-2 years"] += 1
  \<close>
  The dictionary is an association list in insertion order; \<open>durations\<close> holds seconds.
\<close>

type_synonym buckets = "(string \<times> nat) list"

definition buckets_init :: buckets where
  "buckets_init = [(''< 1 month'', 0), (''1-3 months'', 0), (''3-6 months'', 0),
                   (''6-12 months'', 0), (''1-2 years'', 0)]"

definition bump :: "string \<Rightarrow> buckets \<Rightarrow> buckets" where
  "bump k bs = map (\<lambda>(k', c). if k' = k then (k', c + 1) else (k', c)) bs"

definition bucket_of :: "int \<Rightarrow> string" where
  "bucket_of d =
     (let days = (of_int d :: rat) / 86400 in
      if days < 30 then ''< 1 month''
      else if days < 90 then ''1-3 months''
      else if days < 180 then ''3-6 months''
      else if days < 365 then ''6-12 months''
      else ''1-2 years'')"

definition distribution :: "int list \<Rightarrow> buckets" where
  "distribution durations = foldl (\<lambda>bs d. bump (bucket_of d) bs) buckets_init durations"

definition days_to_seconds :: "int \<Rightarrow> int" where
  "days_to_seconds n = n * 86400"

section \<open>Python primitives used by the scripts\<close>

datatype py_error =
  ValueError | IndexError | KeyError | OverflowError | ZeroDivisionError | SystemExit int

text \<open>
  Strings are lists of 8-bit characters, the code points below 256. \<^verbatim>\<open>int(s, base)\<close>
  strips the whitespace at both ends (the characters 9 to 13, 32, 133 and 160), takes an
  optional sign and, for base 16, an optional \<^verbatim>\<open>0x\<close>/\<^verbatim>\<open>0X\<close> prefix, and reads at least
  one digit; a single underscore may stand between two digits or after the prefix.
  Anything else raises ValueError (\<open>None\<close>). The flags of \<open>py_digits\<close> say whether an
  underscore may come next and whether the literal may end here. (The limit that recent
  versions of Python put on the length of a decimal literal, 4300 digits unless
  configured otherwise, is not modelled.)
\<close>

definition py_space :: "char \<Rightarrow> bool" where
  "py_space c =
     (let n = (of_char c :: nat) in (9 \<le> n \<and> n \<le> 13) \<or> n = 32 \<or> n = 133 \<or> n = 160)"

fun rstrip :: "string \<Rightarrow> string" where
  "rstrip [] = []"
| "rstrip (c # cs) = (let r = rstrip cs in if r = [] \<and> py_space c then [] else c # r)"

definition strip :: "string \<Rightarrow> string" where
  "strip s = rstrip (dropWhile py_space s)"

fun py_digits ::
  "(char \<Rightarrow> int option) \<Rightarrow> int \<Rightarrow> bool \<Rightarrow> bool \<Rightarrow> int \<Rightarrow> string \<Rightarrow> int option"
where
  "py_digits digit base underscore_ok end_ok acc [] = (if end_ok then Some acc else None)"
| "py_digits digit base underscore_ok end_ok acc (c # cs) =
     (if c = CHR ''_''
      then (if underscore_ok then py_digits digit base False False acc cs else None)
      else case digit c of
             None \<Rightarrow> None
           | Some d \<Rightarrow> py_digits digit base True True (base * acc + d) cs)"

definition hex_digit :: "char \<Rightarrow> int option" where
  "hex_digit c =
     (let n = (of_char c :: nat) in
      if 48 \<le> n \<and> n \<le> 57 then Some (int n - 48)
      else if 97 \<le> n \<and> n \<le> 102 then Some (int n - 87)
      else if 65 \<le> n \<and> n \<le> 70 then Some (int n - 55)
      else None)"

definition hex_body :: "string \<Rightarrow> int option" where
  "hex_body s =
     (if take 2 s = ''0x'' \<or> take 2 s = ''0X''
      then py_digits hex_digit 16 True False 0 (drop 2 s)
      else py_digits hex_digit 16 False False 0 s)"

definition py_int16 :: "string \<Rightarrow> int option" where
  "py_int16 s =
     (case strip s of
        [] \<Rightarrow> None
      | c # cs \<Rightarrow>
          if c = CHR ''-'' then map_option uminus (hex_body cs)
          else if c = CHR ''+'' then hex_body cs
          else hex_body (c # cs))"

text \<open>
  \<^verbatim>\<open>str.lower()\<close> on the characters below 256: an upper-case letter (A to Z, and
  the letters 192 to 222 but for the sign 215) gets bit 5 set.
\<close>

definition lower_char :: "char \<Rightarrow> char" where
  "lower_char c =
     (let n = (of_char c :: nat) in
      if (65 \<le> n \<and> n \<le> 90) \<or> (192 \<le> n \<and> n \<le> 222 \<and> n \<noteq> 215)
      then (case c of Char b0 b1 b2 b3 b4 b5 b6 b7 \<Rightarrow> Char b0 b1 b2 b3 b4 True b6 b7)
      else c)"

definition lower :: "string \<Rightarrow> string" where
  "lower s = map lower_char s"

text \<open>
  \<^verbatim>\<open>xs[i]\<close> for a Python list: a negative index counts from the end, an index out of
  range raises IndexError.
\<close>

definition py_index :: "'a list \<Rightarrow> int \<Rightarrow> 'a option" where
  "py_index xs i =
     (let n = int (length xs); j = (if i < 0 then n + i else i)
      in if 0 \<le> j \<and> j < n then Some (xs ! nat j) else None)"

section \<open>Python numbers\<close>

text \<open>
  A Python float is an IEEE 754 binary64 value: a rational with at most 53 significant
  bits (a multiple of \<open>2^-1074\<close> below \<open>2^-1022\<close>), an infinity, or NaN. The sign of a
  zero is not represented. \<open>binary64 x\<close> is the float nearest to the rational \<open>x\<close>, a tie
  going to the even significand and a result of magnitude \<open>2^1024\<close> or more to the
  infinity: the rounding of every float operation, of the conversion of an int and of
  the true division of two ints. \<open>bit_length\<close> is \<^verbatim>\<open>int.bit_length\<close> on the naturals,
  \<open>ilog2 x\<close> the exponent \<open>e\<close> with \<open>2^e \<le> x < 2^(e+1)\<close> of a positive \<open>x\<close>.
\<close>

datatype py_float = Finite rat | PosInf | NegInf | NaN

datatype py_num = PyInt int | PyFloat py_float

function bit_length :: "int \<Rightarrow> nat" where
  "bit_length n = (if n \<le> 0 then 0 else Suc (bit_length (n div 2)))"
  by pat_completeness auto
termination
  by (relation "measure nat") auto

declare bit_length.simps [simp del]

definition ilog2 :: "rat \<Rightarrow> int" where
  "ilog2 x =
     (if 1 \<le> x then int (bit_length \<lfloor>x\<rfloor>) - 1 else - int (bit_length (\<lceil>1 / x\<rceil> - 1)))"

definition pow2 :: "int \<Rightarrow> rat" where
  "pow2 e = (if 0 \<le> e then 2 ^ nat e else 1 / 2 ^ nat (- e))"

definition round_half_even :: "rat \<Rightarrow> int" where
  "round_half_even y =
     (let f = \<lfloor>y\<rfloor>; d = y - of_int f
      in if d < 1 / 2 then f else if 1 / 2 < d then f + 1 else if even f then f else f + 1)"

definition binary64 :: "rat \<Rightarrow> py_float" where
  "binary64 x =
     (if x = 0 then Finite 0
      else
        (let q = pow2 (max (ilog2 \<bar>x\<bar> - 52) (- 1074));
             y = of_int (round_half_even (x / q)) * q
         in if 2 ^ 1024 \<le> y then PosInf
            else if y \<le> - (2 ^ 1024) then NegInf
            else Finite y))"

text \<open>
  \<^verbatim>\<open>float(n)\<close> of an int, as the mixed operations apply it, and \<^verbatim>\<open>a / b\<close> on two
  ints: both are correctly rounded and raise OverflowError where the result is no
  finite float; the division raises ZeroDivisionError for a zero divisor.
\<close>

definition float_of_int :: "int \<Rightarrow> py_error + py_float" where
  "float_of_int n =
     (case binary64 (of_int n) of Finite y \<Rightarrow> Inr (Finite y) | _ \<Rightarrow> Inl OverflowError)"

definition int_truediv :: "int \<Rightarrow> int \<Rightarrow> py_error + py_float" where
  "int_truediv a b =
     (if b = 0 then Inl ZeroDivisionError
      else case binary64 (of_int a / of_int b) of
             Finite y \<Rightarrow> Inr (Finite y)
           | _ \<Rightarrow> Inl OverflowError)"

text \<open>
  The float operations the scripts use: \<^verbatim>\<open>x > 0\<close>, \<^verbatim>\<open>x + y\<close>, \<^verbatim>\<open>x * y\<close>, \<^verbatim>\<open>x / y\<close>
  (which raises ZeroDivisionError for a zero divisor) and \<^verbatim>\<open>round(x, nd)\<close>, which
  rounds the exact value of \<open>x\<close> to \<open>nd\<close> decimal places, a tie going to the even digit,
  and returns the float nearest to that decimal; an infinity or NaN is returned as it is.
\<close>

fun float_pos :: "py_float \<Rightarrow> bool" where
  "float_pos (Finite x) = (0 < x)"
| "float_pos PosInf = True"
| "float_pos NegInf = False"
| "float_pos NaN = False"

fun float_add :: "py_float \<Rightarrow> py_float \<Rightarrow> py_float" where
  "float_add (Finite x) (Finite y) = binary64 (x + y)"
| "float_add NaN y = NaN"
| "float_add x NaN = NaN"
| "float_add PosInf NegInf = NaN"
| "float_add NegInf PosInf = NaN"
| "float_add PosInf y = PosInf"
| "float_add x PosInf = PosInf"
| "float_add NegInf y = NegInf"
| "float_add x NegInf = NegInf"

fun float_mul :: "py_float \<Rightarrow> py_float \<Rightarrow> py_float" where
  "float_mul (Finite x) (Finite y) = binary64 (x * y)"
| "float_mul NaN y = NaN"
| "float_mul x NaN = NaN"
| "float_mul x y =
     (if x = Finite 0 \<or> y = Finite 0 then NaN
      else if float_pos x = float_pos y then PosInf else NegInf)"

fun float_div :: "py_float \<Rightarrow> py_float \<Rightarrow> py_error + py_float" where
  "float_div x (Finite y) =
     (if y = 0 then Inl ZeroDivisionError
      else case x of
             Finite a \<Rightarrow> Inr (binary64 (a / y))
           | PosInf \<Rightarrow> Inr (if 0 < y then PosInf else NegInf)
           | NegInf \<Rightarrow> Inr (if 0 < y then NegInf else PosInf)
           | NaN \<Rightarrow> Inr NaN)"
| "float_div x NaN = Inr NaN"
| "float_div (Finite a) y = Inr (Finite 0)"
| "float_div x y = Inr NaN"

fun float_round :: "py_float \<Rightarrow> nat \<Rightarrow> py_float" where
  "float_round (Finite x) nd = binary64 (of_int (round_half_even (x * 10 ^ nd)) / 10 ^ nd)"
| "float_round x nd = x"

text \<open>
  The same operations on a value that is an int or a float: two ints are added and
  multiplied exactly, a mixed operation converts the int first, and \<^verbatim>\<open>round(n, nd)\<close>
  of an int is the int.
\<close>

definition int_op_float ::
  "(py_float \<Rightarrow> py_float \<Rightarrow> py_error + py_float) \<Rightarrow> int \<Rightarrow> py_float \<Rightarrow> py_error + py_float" where
  "int_op_float f a y = (case float_of_int a of Inl e \<Rightarrow> Inl e | Inr x \<Rightarrow> f x y)"

definition float_op_int ::
  "(py_float \<Rightarrow> py_float \<Rightarrow> py_error + py_float) \<Rightarrow> py_float \<Rightarrow> int \<Rightarrow> py_error + py_float" where
  "float_op_int f x b = (case float_of_int b of Inl e \<Rightarrow> Inl e | Inr y \<Rightarrow> f x y)"

fun py_add :: "py_num \<Rightarrow> py_num \<Rightarrow> py_error + py_num" where
  "py_add (PyInt a) (PyInt b) = Inr (PyInt (a + b))"
| "py_add (PyInt a) (PyFloat y) = map_sum id PyFloat (int_op_float (\<lambda>x y. Inr (float_add x y)) a y)"
| "py_add (PyFloat x) (PyInt b) = map_sum id PyFloat (float_op_int (\<lambda>x y. Inr (float_add x y)) x b)"
| "py_add (PyFloat x) (PyFloat y) = Inr (PyFloat (float_add x y))"

fun py_mul :: "py_num \<Rightarrow> py_num \<Rightarrow> py_error + py_num" where
  "py_mul (PyInt a) (PyInt b) = Inr (PyInt (a * b))"
| "py_mul (PyInt a) (PyFloat y) = map_sum id PyFloat (int_op_float (\<lambda>x y. Inr (float_mul x y)) a y)"
| "py_mul (PyFloat x) (PyInt b) = map_sum id PyFloat (float_op_int (\<lambda>x y. Inr (float_mul x y)) x b)"
| "py_mul (PyFloat x) (PyFloat y) = Inr (PyFloat (float_mul x y))"

fun py_truediv :: "py_num \<Rightarrow> py_num \<Rightarrow> py_error + py_num" where
  "py_truediv (PyInt a) (PyInt b) = map_sum id PyFloat (int_truediv a b)"
| "py_truediv (PyInt a) (PyFloat y) = map_sum id PyFloat (int_op_float float_div a y)"
| "py_truediv (PyFloat x) (PyInt b) = map_sum id PyFloat (float_op_int float_div x b)"
| "py_truediv (PyFloat x) (PyFloat y) = map_sum id PyFloat (float_div x y)"

fun py_pos :: "py_num \<Rightarrow> bool" where
  "py_pos (PyInt n) = (0 < n)"
| "py_pos (PyFloat x) = float_pos x"

fun py_round :: "py_num \<Rightarrow> nat \<Rightarrow> py_num" where
  "py_round (PyInt n) nd = PyInt n"
| "py_round (PyFloat x) nd = PyFloat (float_round x nd)"

text \<open>
  \<^verbatim>\<open>acc += x\<close> over a list, from left to right, and the order that sorting by a numeric
  key uses: ints and floats compare by their exact values. Python's comparisons do not
  order NaN, and what its sort does with a NaN key depends on the comparisons the
  algorithm happens to make; here NaN is placed above every number.
\<close>

fun py_sum :: "py_num \<Rightarrow> py_num list \<Rightarrow> py_error + py_num" where
  "py_sum acc [] = Inr acc"
| "py_sum acc (x # xs) = (case py_add acc x of Inl e \<Rightarrow> Inl e | Inr acc' \<Rightarrow> py_sum acc' xs)"

fun num_rank :: "py_num \<Rightarrow> int \<times> rat" where
  "num_rank (PyInt n) = (0, of_int n)"
| "num_rank (PyFloat (Finite x)) = (0, x)"
| "num_rank (PyFloat NegInf) = (- 1, 0)"
| "num_rank (PyFloat PosInf) = (1, 0)"
| "num_rank (PyFloat NaN) = (2, 0)"

section \<open>update\_data.py: make\_batch\_call\<close>

text \<open>
  One entry of the JSON-RPC batch reply is its \<^verbatim>\<open>id\<close> and its \<^verbatim>\<open>result\<close>;
  \<open>None\<close> stands for a \<^verbatim>\<open>result\<close> that is absent, null or empty (the three cases
  the test \<^verbatim>\<open>"result" in r and r["result"]\<close> rejects).
  \<^verbatim>\<open>
  if "result" in r and r["result"] and len(r["result"]) >= 66:
      raw = r["result"]
      amount_raw = int(raw[2:66], 16)
      if amount_raw >= 2**127:
          amount_raw -= 2**128
      end_raw = int(raw[66:130], 16)
      out[tid] = {"amount": amount_raw / 1e18, "end": end_raw}
  else:
      out[tid] = {"amount": 0, "end": 0}
  \<close>
\<close>

record locked =
  amount :: py_num
  lock_end :: int
  error :: bool

definition decode_locked :: "string option \<Rightarrow> py_error + locked" where
  "decode_locked res =
     (case res of
        None \<Rightarrow> Inr \<lparr>amount = PyInt 0, lock_end = 0, error = False\<rparr>
      | Some raw \<Rightarrow>
          if raw \<noteq> [] \<and> 66 \<le> length raw then
            (case py_int16 (take 64 (drop 2 raw)) of
               None \<Rightarrow> Inl ValueError
             | Some amount_raw \<Rightarrow>
                 (let amount_raw =
                        (if 2 ^ 127 \<le> amount_raw then amount_raw - 2 ^ 128 else amount_raw)
                  in case py_int16 (take 64 (drop 66 raw)) of
                       None \<Rightarrow> Inl ValueError
                     | Some end_raw \<Rightarrow>
                         (case py_truediv (PyInt amount_raw) (PyFloat (Finite (10 ^ 18))) of
                            Inl e \<Rightarrow> Inl e
                          | Inr a \<Rightarrow> Inr \<lparr>amount = a, lock_end = end_raw, error = False\<rparr>)))
          else Inr \<lparr>amount = PyInt 0, lock_end = 0, error = False\<rparr>)"

text \<open>
  The whole of \<^verbatim>\<open>make_batch_call\<close>: up to three POSTs of the same batch. \<open>post retry\<close>
  is the reply to the POST of attempt \<open>retry\<close>: HTTP 429, any exception before the
  results are read (timeout, HTTP error, invalid JSON), or the list of entries.
  An exception while the entries are stored (an \<^verbatim>\<open>id\<close> out of range, a field that is
  not hexadecimal) leaves the entries stored so far in \<open>out\<close> and goes to the next
  attempt; after the third failure every token still missing gets the error record.
\<close>

datatype rpc_reply = Http429 | RpcFailure | RpcResults "(int \<times> string option) list"

fun store_results ::
  "int list \<Rightarrow> (int \<times> string option) list \<Rightarrow> (int \<rightharpoonup> locked) \<Rightarrow> (int \<rightharpoonup> locked) \<times> bool"
where
  "store_results token_ids [] out = (out, True)"
| "store_results token_ids ((idx, res) # rs) out =
     (case py_index token_ids idx of
        None \<Rightarrow> (out, False)
      | Some tid \<Rightarrow>
          (case decode_locked res of
             Inl e \<Rightarrow> (out, False)
           | Inr l \<Rightarrow> store_results token_ids rs (out(tid \<mapsto> l))))"

fun batch_attempts ::
  "(nat \<Rightarrow> rpc_reply) \<Rightarrow> int list \<Rightarrow> nat list \<Rightarrow> (int \<rightharpoonup> locked) \<Rightarrow> (int \<rightharpoonup> locked)"
where
  "batch_attempts post token_ids [] out =
     (\<lambda>tid. if tid \<in> set token_ids \<and> out tid = None
            then Some \<lparr>amount = PyInt 0, lock_end = 0, error = True\<rparr> else out tid)"
| "batch_attempts post token_ids (retry # rest) out =
     (case post retry of
        Http429 \<Rightarrow> batch_attempts post token_ids rest out
      | RpcFailure \<Rightarrow> batch_attempts post token_ids rest out
      | RpcResults results \<Rightarrow>
          (case store_results token_ids results out of
             (out', True) \<Rightarrow> out'
           | (out', False) \<Rightarrow> batch_attempts post token_ids rest out'))"

definition make_batch_call :: "(nat \<Rightarrow> rpc_reply) \<Rightarrow> int list \<Rightarrow> (int \<rightharpoonup> locked)" where
  "make_batch_call post token_ids = batch_attempts post token_ids [0..<3] Map.empty"

section \<open>fetch\_early\_exits.py: fetch\_receipt\_and\_calc\_penalty\<close>




definition TRANSFER_TOPIC :: string where
  "TRANSFER_TOPIC = ''0xddf252ad1be2c89b69c2b068fc378daa952ba7f163c4a11628f55a4df523b3ef''"

definition ZERO_ADDR :: string where
  "ZERO_ADDR = ''0x0000000000000000000000000000000000000000''"

text \<open>
  A log of a receipt: \<^verbatim>\<open>address\<close>, \<^verbatim>\<open>topics\<close> and \<^verbatim>\<open>data\<close> (\<open>None\<close> when the key is
  absent). The argument of the function below is what \<^verbatim>\<open>rpc_call\<close> returned:
  \<open>None\<close> for no receipt, \<open>Some logs\<close> for a receipt and its \<^verbatim>\<open>logs\<close>.
\<close>

record log_entry =
  address :: string
  topics :: "string list"
  data :: "string option"

record penalty =
  burn_fee :: py_float
  recoup_fee :: py_float
  total_penalty :: py_float
  original_locked :: py_float
  user_received :: py_float
  penalty_pct :: py_num
  is_early_exit :: bool


text \<open>
  \<^verbatim>\<open>
  "penalty_pct": round((total_penalty / original_locked * 100)
                       if original_locked > 0 else 0, 2),
  \<close>
  is a float, or the int 0 of the \<^verbatim>\<open>else\<close>.
\<close>

definition percentage :: "py_num \<Rightarrow> py_num \<Rightarrow> py_error + py_num" where
  "percentage part whole =
     (if py_pos whole
      then (case py_truediv part whole of
              Inl e \<Rightarrow> Inl e
            | Inr ratio \<Rightarrow> py_mul ratio (PyInt 100))
      else Inr (PyInt 0))"


section \<open>update\_exercised\_usd.py: get\_usdc\_from\_receipt\<close>

definition USDC_E_CONTRACT :: string where
  "USDC_E_CONTRACT = lower ''0x549943e04f40284185054145c6e4e9568c1d3241''"

definition VESTER_CONTRACT :: string where
  "VESTER_CONTRACT = ''0x3E9b9A16743551DA49b5e136C716bBa7932d2cEc''"

definition USDC_DECIMALS :: nat where
  "USDC_DECIMALS = 6"

text \<open>
  \<^verbatim>\<open>
  for log in data["result"].get("logs", []):
      if (log["address"].lower() == USDC_E_CONTRACT and
          len(log["topics"]) >= 3 and
          log["topics"][0] == TRANSFER_TOPIC):
          to_addr = "0x" + log["topics"][2][26:].lower()
          if to_addr == VESTER_CONTRACT.lower():
              return int(log["data"], 16) / (10 ** USDC_DECIMALS)
  return None
  \<close>
\<close>

fun usdc_loop :: "log_entry list \<Rightarrow> py_error + py_float option" where
  "usdc_loop [] = Inr None"
| "usdc_loop (lg # rest) =
     (if lower (address lg) = USDC_E_CONTRACT \<and> 3 \<le> length (topics lg)
         \<and> topics lg ! 0 = TRANSFER_TOPIC
      then (let to_addr = ''0x'' @ lower (drop 26 (topics lg ! 2))
            in if to_addr = lower VESTER_CONTRACT then
                 (case data lg of
                    None \<Rightarrow> Inl KeyError
                  | Some d \<Rightarrow>
                      (case py_int16 d of
                         None \<Rightarrow> Inl ValueError
                       | Some n \<Rightarrow>
                           (case int_truediv n (10 ^ USDC_DECIMALS) of
                              Inl e \<Rightarrow> Inl e
                            | Inr a \<Rightarrow> Inr (Some a))))
               else usdc_loop rest)
      else usdc_loop rest)"

definition get_usdc_from_receipt :: "log_entry list option \<Rightarrow> py_error + py_float option" where
  "get_usdc_from_receipt receipt =
     (case receipt of None \<Rightarrow> Inr None | Some logs \<Rightarrow> usdc_loop logs)"

section \<open>Items of the block explorer's list API\<close>

text \<open>
  An item of \<^verbatim>\<open>tokennfttx\<close> / \<^verbatim>\<open>tokentx\<close> / \<^verbatim>\<open>txlist\<close> is a JSON object whose values
  are strings. The record has the keys the scripts read; a numeric key that may be
  absent is an option (the scripts read it with \<^verbatim>\<open>tx.get(key, default)\<close>), an absent
  \<^verbatim>\<open>hash\<close>, \<^verbatim>\<open>from\<close> or \<^verbatim>\<open>to\<close> is the empty string, their default.
\<close>

record api_tx =
  hash :: string
  tokenID :: "string option"
  logIndex :: "string option"
  blockNumber :: "string option"
  transactionIndex :: "string option"
  from_addr :: string
  to_addr :: string

text \<open>
  \<^verbatim>\<open>int(s)\<close> on a string: as \<open>py_int16\<close>, with decimal digits and no prefix.
  \<open>int_field\<close> is \<^verbatim>\<open>int(tx.get(key, default))\<close>.
\<close>

definition dec_digit :: "char \<Rightarrow> int option" where
  "dec_digit c =
     (let n = (of_char c :: nat) in if 48 \<le> n \<and> n \<le> 57 then Some (int n - 48) else None)"

definition dec_body :: "string \<Rightarrow> int option" where
  "dec_body s = py_digits dec_digit 10 False False 0 s"

definition py_int :: "string \<Rightarrow> int option" where
  "py_int s =
     (case strip s of
        [] \<Rightarrow> None
      | c # cs \<Rightarrow>
          if c = CHR ''-'' then map_option uminus (dec_body cs)
          else if c = CHR ''+'' then dec_body cs
          else dec_body (c # cs))"

definition int_field :: "string option \<Rightarrow> int \<Rightarrow> int option" where
  "int_field f dflt = (case f of None \<Rightarrow> Some dflt | Some s \<Rightarrow> py_int s)"

section \<open>update\_data.py: build\_ownership\<close>

text \<open>
  \<^verbatim>\<open>
  txs.sort(key=lambda t: (int(t.get("blockNumber", 0)), int(t.get("transactionIndex", 0))))
  ownership = {}
  all_minted = set()
  for tx in txs:
      token_id = int(tx.get("tokenID", 0))
      from_addr = tx.get("from", "").lower()
      to_addr = tx.get("to", "").lower()
      if from_addr == ZERO.lower():
          all_minted.add(token_id)
      ownership[token_id] = to_addr
  \<close>
  Each of the three \<^verbatim>\<open>int\<close> conversions raises ValueError on a field that is not a
  decimal integer, and the function has no effect before the last of them; the model
  converts first (\<open>parse_tx\<close>) and raises if any fails. A Python dictionary is an
  association list in insertion order with distinct keys: assigning to a key keeps its
  position (\<open>AList.update\<close>). The sort is stable, as \<open>sort_key\<close> is.
\<close>

record parsed_tx =
  p_block :: int
  p_index :: int
  token_id :: int
  p_from :: string
  p_to :: string

definition parse_tx :: "api_tx \<Rightarrow> parsed_tx option" where
  "parse_tx tx =
     (case (int_field (blockNumber tx) 0, int_field (transactionIndex tx) 0,
            int_field (tokenID tx) 0) of
        (Some b, Some i, Some t) \<Rightarrow>
          Some \<lparr>p_block = b, p_index = i, token_id = t,
                p_from = from_addr tx, p_to = to_addr tx\<rparr>
      | _ \<Rightarrow> None)"

fun ownership_loop ::
  "parsed_tx list \<Rightarrow> (int \<times> string) list \<times> int list \<Rightarrow> (int \<times> string) list \<times> int list"
where
  "ownership_loop [] (ownership, all_minted) = (ownership, all_minted)"
| "ownership_loop (tx # txs) (ownership, all_minted) =
     ownership_loop txs
       (AList.update (token_id tx) (lower (p_to tx)) ownership,
        if lower (p_from tx) = lower ZERO_ADDR then List.insert (token_id tx) all_minted
        else all_minted)"

text \<open>
  \<^verbatim>\<open>
  active_owners = {}
  for tid, owner in ownership.items():
      if owner == ZERO.lower():
          continue
      if owner not in active_owners:
          active_owners[owner] = []
      active_owners[owner].append(tid)
  \<close>
\<close>

fun active_owners_loop ::
  "(int \<times> string) list \<Rightarrow> (string \<times> int list) list \<Rightarrow> (string \<times> int list) list"
where
  "active_owners_loop [] active_owners = active_owners"
| "active_owners_loop ((tid, owner) # items) active_owners =
     (if owner = lower ZERO_ADDR then active_owners_loop items active_owners
      else active_owners_loop items
             (AList.map_default owner [tid] (\<lambda>tids. tids @ [tid]) active_owners))"

record holder =
  holder_address :: string
  nft_count :: nat
  token_ids :: "int list"

record ownership_stats =
  total_minted :: int
  total_burned :: int
  active_nfts :: int
  unique_holders :: int

definition sorted_txs :: "parsed_tx list \<Rightarrow> parsed_tx list" where
  "sorted_txs txs = sort_key (\<lambda>t. (p_block t, p_index t)) txs"

definition ownership_of :: "parsed_tx list \<Rightarrow> (int \<times> string) list" where
  "ownership_of txs = fst (ownership_loop (sorted_txs txs) ([], []))"

definition holders_of :: "(int \<times> string) list \<Rightarrow> holder list" where
  "holders_of ownership =
     map (\<lambda>(addr, tids). \<lparr>holder_address = addr, nft_count = length tids, token_ids = sort tids\<rparr>)
       (active_owners_loop ownership [])"

definition build_ownership :: "api_tx list \<Rightarrow> py_error + holder list \<times> ownership_stats" where
  "build_ownership txs =
     (case those (map parse_tx txs) of
        None \<Rightarrow> Inl ValueError
      | Some ptxs \<Rightarrow>
          (let (ownership, all_minted) = ownership_loop (sorted_txs ptxs) ([], []);
               burned = int (length (filter (\<lambda>(tid, addr). addr = lower ZERO_ADDR) ownership));
               active_owners = active_owners_loop ownership [];
               stats = \<lparr>total_minted = int (length all_minted), total_burned = burned,
                        active_nfts = int (length all_minted) - burned,
                        unique_holders = int (length active_owners)\<rparr>
           in Inr (holders_of ownership, stats)))"

section \<open>Page-number pagination: get\_new\_transactions and get\_all\_exercise\_txs\<close>

text \<open>
  An item of \<^verbatim>\<open>txlist\<close>. The reply to a page request is \<open>Listed txs\<close> when its
  \<^verbatim>\<open>status\<close> is \<^verbatim>\<open>"1"\<close> (\<open>txs\<close> is its \<^verbatim>\<open>result\<close>), \<open>NotOk\<close> for any other status, and
  \<open>Raised\<close> when \<^verbatim>\<open>requests.get\<close>, \<^verbatim>\<open>resp.json()\<close> or a key lookup raises; neither
  function catches the exception.
\<close>

record account_tx =
  tx_hash :: string
  tx_blockNumber :: string
  timeStamp :: string
  methodId :: "string option"
  isError :: "string option"
  txreceipt_status :: "string option"
  input :: string

datatype list_reply = Listed "account_tx list" | NotOk | Raised

datatype fetch_error = RequestFailed

definition PAGE_SIZE :: nat where
  "PAGE_SIZE = 100"

definition EXERCISE_METHOD_ID :: string where
  "EXERCISE_METHOD_ID = ''0xa88f8139''"

text \<open>
  \<^verbatim>\<open>
  all_txs = []
  page = 1
  while True:
      params = {..., "startblock": start_block + 1, "page": page, "offset": PAGE_SIZE, ...}
      resp = requests.get(ROUTESCAN_API, params=params)
      data = resp.json()
      if data["status"] != "1" or not data["result"]:
          break
      txs = data["result"]
      all_txs.extend(txs)
      if len(txs) < PAGE_SIZE:
          break
      page += 1
  return all_txs
  \<close>
  \<open>api page\<close> is the reply to the request for page \<open>page\<close>. The loop runs as long as the
  source sends full pages, so it is a partial function: \<open>None\<close> is a run that never
  returns. Each iteration issues one request, for the pages 1, 2, ... in turn, so the
  number of requests issued is the page number at the exit; the model returns it with
  the list. The page size is a parameter of the loop; the scripts fix it to
  \<open>PAGE_SIZE\<close>.
\<close>

partial_function (option) page_loop ::
  "(nat \<Rightarrow> list_reply) \<Rightarrow> nat \<Rightarrow> nat \<Rightarrow> account_tx list
     \<Rightarrow> (fetch_error + account_tx list \<times> nat) option"
where
  "page_loop api page_size page all_txs =
     (case api page of
        Raised \<Rightarrow> Some (Inl RequestFailed)
      | NotOk \<Rightarrow> Some (Inr (all_txs, page))
      | Listed txs \<Rightarrow>
          if txs = [] then Some (Inr (all_txs, page))
          else if length txs < page_size then Some (Inr (all_txs @ txs, page))
          else page_loop api page_size (page + 1) (all_txs @ txs))"

definition get_new_transactions ::
  "(int \<Rightarrow> nat \<Rightarrow> list_reply) \<Rightarrow> int \<Rightarrow> (fetch_error + account_tx list \<times> nat) option" where
  "get_new_transactions api start_block = page_loop (api (start_block + 1)) PAGE_SIZE 1 []"

text \<open>
  \<^verbatim>\<open>get_all_exercise_txs\<close> is the same loop from block 0, except that it keeps only the
  successful exercise transactions of each page:
  \<^verbatim>\<open>
  exercise = [tx for tx in txs
              if tx.get("methodId") == EXERCISE_METHOD_ID
              and tx.get("isError") == "0"
              and tx.get("txreceipt_status") == "1"]
  all_txs.extend(exercise)
  \<close>
\<close>

definition is_exercise :: "account_tx \<Rightarrow> bool" where
  "is_exercise tx \<longleftrightarrow>
     methodId tx = Some EXERCISE_METHOD_ID \<and> isError tx = Some ''0''
     \<and> txreceipt_status tx = Some ''1''"

partial_function (option) exercise_loop ::
  "(nat \<Rightarrow> list_reply) \<Rightarrow> nat \<Rightarrow> nat \<Rightarrow> account_tx list
     \<Rightarrow> (fetch_error + account_tx list \<times> nat) option"
where
  "exercise_loop api page_size page all_txs =
     (case api page of
        Raised \<Rightarrow> Some (Inl RequestFailed)
      | NotOk \<Rightarrow> Some (Inr (all_txs, page))
      | Listed txs \<Rightarrow>
          if txs = [] then Some (Inr (all_txs, page))
          else if length txs < page_size
          then Some (Inr (all_txs @ filter is_exercise txs, page))
          else exercise_loop api page_size (page + 1) (all_txs @ filter is_exercise txs))"

definition get_all_exercise_txs ::
  "(int \<Rightarrow> nat \<Rightarrow> list_reply) \<Rightarrow> (fetch_error + account_tx list \<times> nat) option" where
  "get_all_exercise_txs api = exercise_loop (api 0) PAGE_SIZE 1 []"

text \<open>
  The synthetic source of the pagination property: it holds the items \<open>src\<close> and answers
  the request for page \<open>page\<close> of size \<open>page_size\<close> with the items
  \<open>(page - 1) * page_size\<close>, ... of \<open>src\<close>, and with "No transactions found" (status
  \<^verbatim>\<open>"0"\<close>) beyond the last item. The number \<open>ceil_div n p\<close> is \<open>n / p\<close> rounded up.
\<close>

definition paged_source :: "nat \<Rightarrow> account_tx list \<Rightarrow> nat \<Rightarrow> list_reply" where
  "paged_source page_size src page =
     (let chunk = take page_size (drop ((page - 1) * page_size) src)
      in if chunk = [] then NotOk else Listed chunk)"

definition ceil_div :: "nat \<Rightarrow> nat \<Rightarrow> nat" where
  "ceil_div n p = (n + p - 1) div p"

section \<open>Block-range pagination: fetch\_all\_nft\_transfers and fetch\_erc20\_transfers\<close>

text \<open>
  The reply to one \<^verbatim>\<open>tokennfttx\<close> / \<^verbatim>\<open>tokentx\<close> request, as the scripts classify it, in
  the order of their tests: \<open>Results\<close> when the status is \<^verbatim>\<open>"1"\<close> and the result a list;
  \<open>RateLimited\<close> when the result or message mentions the rate limit; \<open>NoTransactions\<close>
  for "No transactions found"; \<open>ApiProblem\<close> for any other reply; \<open>Failure\<close> when the
  request or the JSON decoding raises. \<open>api n start_block\<close> is the reply to the request
  number \<open>n\<close> of the run (counted from 0), sent with \<^verbatim>\<open>startblock = start_block\<close>.
\<close>

datatype range_reply =
  Results "api_tx list" | RateLimited | NoTransactions | ApiProblem | Failure

text \<open>
  \<^verbatim>\<open>
  for tx in results:
      tx_key = tx.get("hash", "") + tx.get("tokenID", "")
      if tx_key not in seen_hashes:
          seen_hashes.add(tx_key)
          all_txs.append(tx)
  \<close>
  (\<^verbatim>\<open>fetch_erc20_transfers\<close> has \<^verbatim>\<open>logIndex\<close> for \<^verbatim>\<open>tokenID\<close>.)
\<close>

definition nft_key :: "api_tx \<Rightarrow> string" where
  "nft_key tx = hash tx @ (case tokenID tx of None \<Rightarrow> '''' | Some t \<Rightarrow> t)"

definition erc20_key :: "api_tx \<Rightarrow> string" where
  "erc20_key tx = hash tx @ (case logIndex tx of None \<Rightarrow> '''' | Some i \<Rightarrow> i)"

fun dedup ::
  "(api_tx \<Rightarrow> string) \<Rightarrow> api_tx list \<Rightarrow> api_tx list \<times> string set \<Rightarrow> api_tx list \<times> string set"
where
  "dedup key [] (all_txs, seen) = (all_txs, seen)"
| "dedup key (tx # results) (all_txs, seen) =
     (if key tx \<notin> seen then dedup key results (all_txs @ [tx], insert (key tx) seen)
      else dedup key results (all_txs, seen))"

text \<open>
  \<^verbatim>\<open>fetch_all_nft_transfers\<close>. One step of the model is one request: \<open>retry\<close> is the
  variable of \<^verbatim>\<open>for retry in range(3)\<close>, and \<open>3 \<le> retry\<close> is the \<^verbatim>\<open>else\<close> of the
  \<^verbatim>\<open>for\<close>, which leaves the \<^verbatim>\<open>while\<close> loop. An exception inside the \<^verbatim>\<open>try\<close>
  (\<open>Failure\<close>, or a last \<^verbatim>\<open>blockNumber\<close> that \<^verbatim>\<open>int\<close> rejects, after the page has been
  merged) goes to the next retry. The loop is a partial function: \<open>None\<close> is a run that
  never returns. The page capacity, 10000 in the script (\<^verbatim>\<open>"offset": 10000\<close> and
  \<^verbatim>\<open>len(results) < 10000\<close>), is the parameter \<open>cap\<close> of the loop.
  \<^verbatim>\<open>
  if len(results) < 10000:
      return all_txs
  last_block = int(results[-1].get("blockNumber", start_block))
  if last_block == start_block:
      start_block = last_block + 1
  else:
      start_block = last_block
  break
  \<close>
\<close>

partial_function (option) nft_loop ::
  "nat \<Rightarrow> (nat \<Rightarrow> int \<Rightarrow> range_reply) \<Rightarrow> nat \<Rightarrow> nat \<Rightarrow> api_tx list \<Rightarrow> string set \<Rightarrow> int
     \<Rightarrow> (py_error + api_tx list) option"
where
  "nft_loop cap api n retry all_txs seen_hashes start_block =
     (if 3 \<le> retry then Some (Inr all_txs)
      else case api n start_block of
        Results results \<Rightarrow>
          (case dedup nft_key results (all_txs, seen_hashes) of
             (all_txs', seen') \<Rightarrow>
               if length results < cap then Some (Inr all_txs')
               else (case int_field (blockNumber (last results)) start_block of
                       None \<Rightarrow> nft_loop cap api (n + 1) (retry + 1) all_txs' seen' start_block
                     | Some last_block \<Rightarrow>
                         nft_loop cap api (n + 1) 0 all_txs' seen'
                           (if last_block = start_block then last_block + 1 else last_block)))
      | RateLimited \<Rightarrow> nft_loop cap api (n + 1) (retry + 1) all_txs seen_hashes start_block
      | NoTransactions \<Rightarrow> Some (Inr all_txs)
      | ApiProblem \<Rightarrow> if all_txs \<noteq> [] then Some (Inr all_txs) else Some (Inl (SystemExit 1))
      | Failure \<Rightarrow> nft_loop cap api (n + 1) (retry + 1) all_txs seen_hashes start_block)"

definition fetch_all_nft_transfers ::
  "string \<Rightarrow> (nat \<Rightarrow> int \<Rightarrow> range_reply) \<Rightarrow> (py_error + api_tx list) option" where
  "fetch_all_nft_transfers API_KEY api =
     (if API_KEY = [] then Some (Inl (SystemExit 1)) else nft_loop 10000 api 0 0 [] {} 0)"

text \<open>
  \<^verbatim>\<open>fetch_erc20_transfers\<close>: five retries; \<open>5 \<le> retry\<close> is the \<^verbatim>\<open>else\<close> of the \<^verbatim>\<open>for\<close>,
  which counts a consecutive error and either gives up or moves the start block on by
  10000 blocks. Any other reply (\<open>ApiProblem\<close>) counts a consecutive error as well; a
  page resets the count. The variables of the function are the fields of one state
  record (with the prefix \<open>st\<close>); \<open>st_requests\<close> counts the requests sent so far.
\<close>

record erc20_state =
  st_requests :: nat
  st_retry :: nat
  st_all_txs :: "api_tx list"
  st_seen :: "string set"
  st_start_block :: int
  st_consecutive_errors :: nat

partial_function (option) erc20_loop ::
  "nat \<Rightarrow> (nat \<Rightarrow> int \<Rightarrow> range_reply) \<Rightarrow> erc20_state \<Rightarrow> api_tx list option"
where
  "erc20_loop cap api s =
     (if 5 \<le> st_retry s then
        (if 3 \<le> st_consecutive_errors s + 1 then Some (st_all_txs s)
         else erc20_loop cap api
                (s\<lparr>st_retry := 0, st_start_block := st_start_block s + 10000,
                   st_consecutive_errors := st_consecutive_errors s + 1\<rparr>))
      else case api (st_requests s) (st_start_block s) of
        Results results \<Rightarrow>
          (case dedup erc20_key results (st_all_txs s, st_seen s) of
             (all_txs', seen') \<Rightarrow>
               if length results < cap then Some all_txs'
               else (case int_field (blockNumber (last results)) (st_start_block s) of
                       None \<Rightarrow>
                         erc20_loop cap api
                           (s\<lparr>st_requests := st_requests s + 1, st_retry := st_retry s + 1,
                              st_all_txs := all_txs', st_seen := seen', st_consecutive_errors := 0\<rparr>)
                     | Some last_block \<Rightarrow>
                         erc20_loop cap api
                           (s\<lparr>st_requests := st_requests s + 1, st_retry := 0,
                              st_all_txs := all_txs', st_seen := seen',
                              st_start_block := (if last_block \<noteq> st_start_block s then last_block
                                              else last_block + 1),
                              st_consecutive_errors := 0\<rparr>)))
      | RateLimited \<Rightarrow>
          erc20_loop cap api (s\<lparr>st_requests := st_requests s + 1, st_retry := st_retry s + 1\<rparr>)
      | NoTransactions \<Rightarrow> Some (st_all_txs s)
      | ApiProblem \<Rightarrow>
          if 3 \<le> st_consecutive_errors s + 1 then Some (st_all_txs s)
          else erc20_loop cap api
                 (s\<lparr>st_requests := st_requests s + 1, st_retry := st_retry s + 1,
                    st_consecutive_errors := st_consecutive_errors s + 1\<rparr>)
      | Failure \<Rightarrow>
          erc20_loop cap api (s\<lparr>st_requests := st_requests s + 1, st_retry := st_retry s + 1\<rparr>))"

definition fetch_erc20_transfers ::
  "string \<Rightarrow> (nat \<Rightarrow> int \<Rightarrow> range_reply) \<Rightarrow> api_tx list option" where
  "fetch_erc20_transfers api_key api =
     (if api_key = [] then Some []
      else erc20_loop 10000 api
             \<lparr>st_requests = 0, st_retry = 0, st_all_txs = [], st_seen = {}, st_start_block = 0,
              st_consecutive_errors = 0\<rparr>)"

text \<open>
  Notions for stating what the two fetchers return. \<open>collected\<close> is the relation the
  loops keep between \<^verbatim>\<open>all_txs\<close> and the set of seen keys. \<open>served cap api n s pages\<close>
  describes a page sequence: the requests number \<open>n\<close>, \<open>n + 1\<close>, ... are answered with the
  pages of the list, every page but the last is full and ends with a block number that
  \<^verbatim>\<open>int\<close> accepts, the last page is short, and each request is sent with the start block
  the scripts compute from the page before (the last block of that page, or the block
  after it when this is the start block already), beginning with \<open>s\<close>. The second page
  overlaps the first on the boundary block whenever the source lists that block again.
  \<open>sub_index\<close> is \<^verbatim>\<open>tx.get("tokenID", "")\<close>, respectively \<^verbatim>\<open>tx.get("logIndex", "")\<close>.
\<close>

definition collected :: "(api_tx \<Rightarrow> string) \<Rightarrow> api_tx list \<Rightarrow> string set \<Rightarrow> bool" where
  "collected key all_txs seen \<longleftrightarrow> seen = key ` set all_txs \<and> distinct (map key all_txs)"

fun served :: "nat \<Rightarrow> (nat \<Rightarrow> int \<Rightarrow> range_reply) \<Rightarrow> nat \<Rightarrow> int \<Rightarrow> api_tx list list \<Rightarrow> bool" where
  "served cap api n start_block [] = False"
| "served cap api n start_block [page] = (api n start_block = Results page \<and> length page < cap)"
| "served cap api n start_block (page # next_page # pages) =
     (api n start_block = Results page \<and> cap \<le> length page
      \<and> (case int_field (blockNumber (last page)) start_block of
            None \<Rightarrow> False
          | Some last_block \<Rightarrow>
              served cap api (n + 1)
                (if last_block = start_block then last_block + 1 else last_block)
                (next_page # pages)))"

definition sub_index :: "string option \<Rightarrow> string" where
  "sub_index f = (case f of None \<Rightarrow> '''' | Some s \<Rightarrow> s)"

text \<open>
  \<open>each_once key items res\<close>: the list \<open>res\<close> has every key of \<open>items\<close> exactly once, and
  the item it has for a key is the first item of \<open>items\<close> with that key.
\<close>

definition each_once :: "(api_tx \<Rightarrow> string) \<Rightarrow> api_tx list \<Rightarrow> api_tx list \<Rightarrow> bool" where
  "each_once key items res \<longleftrightarrow>
     distinct (map key res) \<and> key ` set res = key ` set items \<and> set res \<subseteq> set items
     \<and> (\<forall>k. filter (\<lambda>t. key t = k) res = take 1 (filter (\<lambda>t. key t = k) items))"

section \<open>Flushing the cache file\<close>

text \<open>
  A file system is a map from paths to contents. \<^verbatim>\<open>open(path, "w")\<close> truncates the file
  (or creates it empty), \<^verbatim>\<open>json.dump(cache, f)\<close> writes the text of the cache to it in
  chunks, and \<^verbatim>\<open>os.replace(src, dst)\<close> renames \<open>src\<close> over \<open>dst\<close> in one step. A flush
  is the list of its file operations; a flush that crashes, or whose write fails, has
  run only the first \<open>k\<close> of them (\<open>crash_after\<close>). The text of the cache is given by
  the chunks \<^verbatim>\<open>json.dump\<close> writes.
\<close>

type_synonym fs = "string \<rightharpoonup> string"

datatype fs_op = OpenTruncate string | WriteChunk string string | Replace string string

fun fs_step :: "fs \<Rightarrow> fs_op \<Rightarrow> fs" where
  "fs_step fs (OpenTruncate path) = fs(path \<mapsto> [])"
| "fs_step fs (WriteChunk path chunk) =
     (case fs path of None \<Rightarrow> fs | Some old \<Rightarrow> fs(path \<mapsto> old @ chunk))"
| "fs_step fs (Replace src dst) =
     (case fs src of None \<Rightarrow> fs | Some new \<Rightarrow> (fs(dst \<mapsto> new))(src := None))"

definition crash_after :: "nat \<Rightarrow> fs_op list \<Rightarrow> fs \<Rightarrow> fs" where
  "crash_after k ops fs = foldl fs_step fs (take k ops)"

text \<open>
  update\_data.py:
  \<^verbatim>\<open>
  def save_cache(cache):
      tmp = CACHE_FILE + ".tmp"
      with open(tmp, "w") as f:
          json.dump(cache, f)
      os.replace(tmp, CACHE_FILE)
  \<close>
  fetch\_early\_exits.py, in \<^verbatim>\<open>main\<close> (after every tenth chunk, after the last chunk,
  and once more after the loop):
  \<^verbatim>\<open>
  with open(CACHE_FILE, "w") as f:
      json.dump(cache, f)
  \<close>
\<close>

definition save_cache :: "string \<Rightarrow> string list \<Rightarrow> fs_op list" where
  "save_cache CACHE_FILE chunks =
     (let tmp = CACHE_FILE @ ''.tmp''
      in [OpenTruncate tmp] @ map (WriteChunk tmp) chunks @ [Replace tmp CACHE_FILE])"

definition early_exits_flush :: "string \<Rightarrow> string list \<Rightarrow> fs_op list" where
  "early_exits_flush CACHE_FILE chunks =
     [OpenTruncate CACHE_FILE] @ map (WriteChunk CACHE_FILE) chunks"

section \<open>fetch\_early\_exits.py: main\<close>

text \<open>
  A decoded Withdraw event (\<^verbatim>\<open>decode_withdraw_event\<close>), the cache (transaction hash to
  penalty record) and the resolver: \<open>resolver h\<close> is what
  \<^verbatim>\<open>fetch_receipt_and_calc_penalty(h)\<close> does in this run, a record, \<^verbatim>\<open>None\<close>, or an
  exception (which \<^verbatim>\<open>future.result()\<close> raises again, so the run ends with it).
  \<^verbatim>\<open>
  tx_hashes_needed = [ev["tx_hash"] for ev in events if ev["tx_hash"] not in cache]
  ...
  for chunk_idx, chunk in enumerate(chunks):
      with ThreadPoolExecutor(max_workers=MAX_WORKERS) as executor:
          futures = [executor.submit(fetch_one, th) for th in chunk]
          for future in as_completed(futures):
              tx_hash, result = future.result()
              if result:
                  cache[tx_hash] = result
              else:
                  errors += 1
  \<close>
  Every hash of \<^verbatim>\<open>tx_hashes_needed\<close> is submitted once, in chunks of eight; the results
  of a chunk are merged in the order of completion, which does not change the cache as
  each result is stored under its own hash. The model resolves the hashes one after the
  other and keeps, besides the cache and the error count, the list of the hashes the
  resolver was called with.
\<close>

record withdraw_event =
  provider :: string
  ev_token_id :: int
  ev_value :: py_float
  timestamp :: int
  block :: int
  ev_tx_hash :: string

type_synonym penalty_cache = "string \<rightharpoonup> penalty"

fun resolve_loop ::
  "(string \<Rightarrow> py_error + penalty option) \<Rightarrow> string list
     \<Rightarrow> penalty_cache \<times> nat \<times> string list \<Rightarrow> py_error + penalty_cache \<times> nat \<times> string list"
where
  "resolve_loop resolver [] acc = Inr acc"
| "resolve_loop resolver (th # rest) (cache, errors, calls) =
     (case resolver th of
        Inl e \<Rightarrow> Inl e
      | Inr None \<Rightarrow> resolve_loop resolver rest (cache, errors + 1, calls @ [th])
      | Inr (Some result) \<Rightarrow>
          resolve_loop resolver rest (cache(th \<mapsto> result), errors, calls @ [th]))"

text \<open>
  \<^verbatim>\<open>
  for ev in events:
      penalty = cache.get(ev["tx_hash"])
      if not penalty:
          continue
      entry = {**ev, **penalty}
      if penalty.get("is_early_exit"):
          early_exits.append(entry)
          total_burn += penalty["burn_fee"]
          total_recoup += penalty["recoup_fee"]
          total_penalty_dolo += penalty["total_penalty"]
          total_original_locked += penalty["original_locked"]
      else:
          normal_exits.append(entry)
  early_exits.sort(key=lambda x: x["timestamp"], reverse=True)
  \<close>
  An entry is the event with its penalty record. The accumulators are, in this order,
  \<open>early_exits\<close>, \<open>normal_exits\<close>, \<open>total_burn\<close>, \<open>total_recoup\<close>,
  \<open>total_penalty_dolo\<close> and \<open>total_original_locked\<close>. A descending sort keeps the
  order of equal keys, as reversing, sorting stably and reversing again does. The
  \<^verbatim>\<open>last_updated\<close> time stamp of the statistics is left out. Where the statistics
  are built, the last two accumulators are written \<open>acc_penalty_dolo\<close> and
  \<open>acc_original_locked\<close>, their names being those of two keys of the statistics.
\<close>

type_synonym entry = "withdraw_event \<times> penalty"

type_synonym exit_totals =
  "entry list \<times> entry list \<times> py_num \<times> py_num \<times> py_num \<times> py_num"

fun stats_loop ::
  "penalty_cache \<Rightarrow> withdraw_event list \<Rightarrow> exit_totals \<Rightarrow> py_error + exit_totals"
where
  "stats_loop cache [] acc = Inr acc"
| "stats_loop cache (ev # events)
     (early_exits, normal_exits, total_burn, total_recoup, total_penalty_dolo,
      total_original_locked) =
     (case cache (ev_tx_hash ev) of
        None \<Rightarrow>
          stats_loop cache events
            (early_exits, normal_exits, total_burn, total_recoup, total_penalty_dolo,
             total_original_locked)
      | Some penalty \<Rightarrow>
          if is_early_exit penalty then
            (case py_add total_burn (PyFloat (burn_fee penalty)) of
               Inl e \<Rightarrow> Inl e
             | Inr total_burn' \<Rightarrow>
            (case py_add total_recoup (PyFloat (recoup_fee penalty)) of
               Inl e \<Rightarrow> Inl e
             | Inr total_recoup' \<Rightarrow>
            (case py_add total_penalty_dolo (PyFloat (total_penalty penalty)) of
               Inl e \<Rightarrow> Inl e
             | Inr total_penalty_dolo' \<Rightarrow>
            (case py_add total_original_locked (PyFloat (original_locked penalty)) of
               Inl e \<Rightarrow> Inl e
             | Inr total_original_locked' \<Rightarrow>
                 stats_loop cache events
                   (early_exits @ [(ev, penalty)], normal_exits, total_burn', total_recoup',
                    total_penalty_dolo', total_original_locked')))))
          else
            stats_loop cache events
              (early_exits, normal_exits @ [(ev, penalty)], total_burn, total_recoup,
               total_penalty_dolo, total_original_locked))"

record exit_stats =
  total_early_exits :: nat
  total_normal_exits :: nat
  total_withdrawals :: nat
  total_burn_fee_dolo :: py_num
  total_recoup_fee_dolo :: py_num
  total_penalty_dolo :: py_num
  total_original_locked :: py_num
  avg_penalty_pct :: py_num

definition compute_stats ::
  "penalty_cache \<Rightarrow> withdraw_event list \<Rightarrow> py_error + exit_stats \<times> entry list" where
  "compute_stats cache events =
     (case stats_loop cache events ([], [], PyInt 0, PyInt 0, PyInt 0, PyInt 0) of
        Inl e \<Rightarrow> Inl e
      | Inr (early_exits, normal_exits, total_burn, total_recoup, acc_penalty_dolo,
             acc_original_locked) \<Rightarrow>
          (case percentage acc_penalty_dolo acc_original_locked of
             Inl e \<Rightarrow> Inl e
           | Inr pct \<Rightarrow>
               Inr (\<lparr>total_early_exits = length early_exits,
                     total_normal_exits = length normal_exits,
                     total_withdrawals = length events,
                     total_burn_fee_dolo = py_round total_burn 2,
                     total_recoup_fee_dolo = py_round total_recoup 2,
                     total_penalty_dolo = py_round acc_penalty_dolo 2,
                     total_original_locked = py_round acc_original_locked 2,
                     avg_penalty_pct = py_round pct 2\<rparr>,
                    rev (sort_key (\<lambda>x. timestamp (fst x)) (rev early_exits)))))"

text \<open>
  The run from the loaded cache and the decoded events on: no events end the run with
  \<^verbatim>\<open>sys.exit(0)\<close>; otherwise the missing receipts are resolved and the statistics
  computed. The result is the output (statistics and sorted early exits), the cache as
  it is flushed at the end, and the resolver calls.
\<close>

definition early_exits_main ::
  "penalty_cache \<Rightarrow> withdraw_event list \<Rightarrow> (string \<Rightarrow> py_error + penalty option)
     \<Rightarrow> py_error + (exit_stats \<times> entry list) \<times> penalty_cache \<times> string list" where
  "early_exits_main cache events resolver =
     (if events = [] then Inl (SystemExit 0)
      else
        (let tx_hashes_needed =
               map ev_tx_hash (filter (\<lambda>ev. cache (ev_tx_hash ev) = None) events)
         in case resolve_loop resolver tx_hashes_needed (cache, 0, []) of
              Inl e \<Rightarrow> Inl e
            | Inr (cache', errors, calls) \<Rightarrow>
                (case compute_stats cache' events of
                   Inl e \<Rightarrow> Inl e
                 | Inr out \<Rightarrow> Inr (out, cache', calls))))"

section \<open>update\_data.py: fetch\_locked\_dolo and the merge of main\<close>

text \<open>
  The cache file maps \<^verbatim>\<open>str(tid)\<close> to the locked record; the model has the token id
  itself for the key \<^verbatim>\<open>str(tid)\<close>.
  \<^verbatim>\<open>
  cached_ids = {int(k) for k in cache.keys()}
  missing = [tid for tid in all_token_ids if tid not in cached_ids]
  if missing:
      chunks = [missing[i:i+BATCH_SIZE] for i in range(0, len(missing), BATCH_SIZE)]
      ...
          window = chunks[chunk_idx:chunk_idx + MAX_WORKERS]
          with ThreadPoolExecutor(max_workers=MAX_WORKERS) as executor:
              futures = {executor.submit(make_batch_call, c): ci for ci, c in enumerate(window)}
              for future in as_completed(futures):
                  for tid, data_item in future.result().items():
                      cache[str(tid)] = data_item
  return cache
  \<close>
  \<open>rpc c retry\<close> is the reply to the POST number \<open>retry\<close> of the batch \<open>c\<close>. Each chunk
  is given to \<^verbatim>\<open>make_batch_call\<close> once, four chunks at a time; the model merges the
  results in the order of the chunks and returns, with the cache, the list of the
  chunks \<^verbatim>\<open>make_batch_call\<close> was called with. (\<open>chunks_of 0\<close> is empty; the script's
  step is the constant 50.)
\<close>

definition BATCH_SIZE :: nat where
  "BATCH_SIZE = 50"

function chunks_of :: "nat \<Rightarrow> 'a list \<Rightarrow> 'a list list" where
  "chunks_of n xs = (if n = 0 \<or> xs = [] then [] else take n xs # chunks_of n (drop n xs))"
  by pat_completeness auto
termination
  by (relation "measure (\<lambda>(n, xs). length xs)") auto

declare chunks_of.simps [simp del]

definition fetch_locked_dolo ::
  "(int \<rightharpoonup> locked) \<Rightarrow> (int list \<Rightarrow> nat \<Rightarrow> rpc_reply) \<Rightarrow> int list
     \<Rightarrow> (int \<rightharpoonup> locked) \<times> int list list" where
  "fetch_locked_dolo cache rpc all_token_ids =
     (let missing = filter (\<lambda>tid. cache tid = None) all_token_ids;
          chunks = chunks_of BATCH_SIZE missing
      in (foldl (\<lambda>cache c. cache ++ make_batch_call (rpc c) c) cache chunks, chunks))"

text \<open>
  The merge of \<^verbatim>\<open>main\<close>:
  \<^verbatim>\<open>
  for tid in holder["token_ids"]:
      ld = cache.get(str(tid), {"amount": 0, "end": 0})
      amt = ld.get("amount", 0)
      end = ld.get("end", 0)
      vw = vote_weights.get(tid, 0)
      holder_dolo += amt
      holder_vote += vw
      if end > 0:
          earliest_end = min(earliest_end, end)
          latest_end = max(latest_end, end)
      token_details.append({"id": tid, "dolo": round(amt, 2), "end": end,
                            "vote_weight": round(vw, 4)})
  \<close>
  \<^verbatim>\<open>earliest_end\<close> starts as \<^verbatim>\<open>float('inf')\<close>, here \<open>None\<close>, and is stored as 0 when
  it still is. The accumulators of the inner loop are \<open>holder_dolo\<close>, \<open>holder_vote\<close>,
  \<open>token_details\<close>, \<open>earliest_end\<close> and \<open>latest_end\<close>.
\<close>

record token_detail =
  td_id :: int
  td_dolo :: py_num
  td_end :: int
  td_vote_weight :: py_num

record merged_holder = holder +
  total_dolo :: py_num
  total_vote_weight :: py_num
  earliest_lock_end :: int
  latest_lock_end :: int
  token_details :: "token_detail list"
  rank :: nat

fun token_loop ::
  "(int \<rightharpoonup> locked) \<Rightarrow> (int \<rightharpoonup> py_float) \<Rightarrow> int list
     \<Rightarrow> py_num \<times> py_num \<times> token_detail list \<times> int option \<times> int
     \<Rightarrow> py_error + py_num \<times> py_num \<times> token_detail list \<times> int option \<times> int"
where
  "token_loop cache vote_weights [] acc = Inr acc"
| "token_loop cache vote_weights (tid # tids)
     (holder_dolo, holder_vote, details, earliest_end, latest_end) =
     (let ld = (case cache tid of None \<Rightarrow> \<lparr>amount = PyInt 0, lock_end = 0, error = False\<rparr>
                | Some l \<Rightarrow> l);
          amt = amount ld;
          end_ts = lock_end ld;
          vw = (case vote_weights tid of None \<Rightarrow> PyInt 0 | Some w \<Rightarrow> PyFloat w)
      in case py_add holder_dolo amt of
           Inl e \<Rightarrow> Inl e
         | Inr holder_dolo' \<Rightarrow>
             (case py_add holder_vote vw of
                Inl e \<Rightarrow> Inl e
              | Inr holder_vote' \<Rightarrow>
                  token_loop cache vote_weights tids
                    (holder_dolo', holder_vote',
                     details @ [\<lparr>td_id = tid, td_dolo = py_round amt 2, td_end = end_ts,
                                  td_vote_weight = py_round vw 4\<rparr>],
                     if 0 < end_ts
                     then Some (case earliest_end of None \<Rightarrow> end_ts | Some e \<Rightarrow> min e end_ts)
                     else earliest_end,
                     if 0 < end_ts then max latest_end end_ts else latest_end)))"

fun holders_loop ::
  "(int \<rightharpoonup> locked) \<Rightarrow> (int \<rightharpoonup> py_float) \<Rightarrow> holder list
     \<Rightarrow> merged_holder list \<times> py_num \<times> py_num
     \<Rightarrow> py_error + merged_holder list \<times> py_num \<times> py_num"
where
  "holders_loop cache vote_weights [] acc = Inr acc"
| "holders_loop cache vote_weights (h # hs) (merged, total_locked_dolo, total_vote_weight_sum) =
     (case token_loop cache vote_weights (token_ids h) (PyInt 0, PyInt 0, [], None, 0) of
        Inl e \<Rightarrow> Inl e
      | Inr (holder_dolo, holder_vote, details, earliest_end, latest_end) \<Rightarrow>
          (case py_add total_locked_dolo holder_dolo of
             Inl e \<Rightarrow> Inl e
           | Inr total_locked_dolo' \<Rightarrow>
               (case py_add total_vote_weight_sum holder_vote of
                  Inl e \<Rightarrow> Inl e
                | Inr total_vote_weight_sum' \<Rightarrow>
                    holders_loop cache vote_weights hs
                      (merged @
                         [\<lparr>holder_address = holder_address h, nft_count = nft_count h,
                           token_ids = token_ids h,
                           total_dolo = py_round holder_dolo 2,
                           total_vote_weight = py_round holder_vote 4,
                           earliest_lock_end =
                             (case earliest_end of None \<Rightarrow> 0 | Some e \<Rightarrow> e),
                           latest_lock_end = latest_end,
                           token_details = details, rank = 0\<rparr>],
                       total_locked_dolo', total_vote_weight_sum'))))"

text \<open>
  \<^verbatim>\<open>
  holders.sort(key=lambda h: h["total_dolo"], reverse=True)
  for i, h in enumerate(holders, 1):
      h["rank"] = i
  stats["total_locked_dolo"] = round(total_locked_dolo, 2)
  stats["total_vote_weight"] = round(total_vote_weight, 4)
  \<close>
  The result of the merge is the ranked list of holders and the two totals.
\<close>

definition merge_holders ::
  "(int \<rightharpoonup> locked) \<Rightarrow> (int \<rightharpoonup> py_float) \<Rightarrow> holder list
     \<Rightarrow> py_error + merged_holder list \<times> py_num \<times> py_num" where
  "merge_holders cache vote_weights holders =
     (case holders_loop cache vote_weights holders ([], PyInt 0, PyInt 0) of
        Inl e \<Rightarrow> Inl e
      | Inr (merged, total_locked_dolo, total_vote_weight_sum) \<Rightarrow>
          Inr (map (\<lambda>(i, h). h\<lparr>rank := i\<rparr>)
                 (zip [1..<Suc (length merged)]
                    (rev (sort_key (\<lambda>h. num_rank (total_dolo h)) (rev merged)))),
               py_round total_locked_dolo 2, py_round total_vote_weight_sum 4))"

text \<open>
  Two notions for stating what the loop over the needed hashes returns: the exception of
  the first call that raises one, and the cache after every needed hash has been
  resolved.
\<close>

fun first_error :: "(string \<Rightarrow> py_error + penalty option) \<Rightarrow> string list \<Rightarrow> py_error option" where
  "first_error resolver [] = None"
| "first_error resolver (h # hs) =
     (case resolver h of Inl e \<Rightarrow> Some e | Inr r \<Rightarrow> first_error resolver hs)"

definition resolved :: "(string \<Rightarrow> py_error + penalty option) \<Rightarrow> string list \<Rightarrow> penalty_cache \<Rightarrow> penalty_cache" where
  "resolved resolver needed cache =
     (\<lambda>h. if h \<in> set needed
          then (case resolver h of Inr (Some p) \<Rightarrow> Some p | _ \<Rightarrow> cache h)
          else cache h)"

section \<open>update\_exercised\_usd.py: main\<close>

text \<open>
  The persisted totals (\<^verbatim>\<open>exercised_usd.json\<close>; the \<^verbatim>\<open>period\<close> and \<^verbatim>\<open>last_updated\<close>
  strings are left out), the transactions \<^verbatim>\<open>get_new_transactions(last_block)\<close>
  returned, and \<open>receipt h\<close>, the receipt the API returns for the hash \<open>h\<close>.
  \<^verbatim>\<open>
  new_usdc = 0
  max_block = last_block
  for i, tx in enumerate(exercise_txs):
      amount = get_usdc_from_receipt(tx["hash"])
      block = int(tx["blockNumber"])
      max_block = max(max_block, block)
      if amount is not None:
          new_usdc += amount
          total_txs += 1
          ts = int(tx["timeStamp"])
  for tx in new_txs:
      block = int(tx["blockNumber"])
      max_block = max(max_block, block)
  total_usdc += new_usdc
  result = {"total_usdc": round(total_usdc, 2), "total_txs": total_txs,
            "last_block": max_block, ...}
  save_data(result)
  \<close>
  The run returns \<open>None\<close> when it saves nothing (no new transactions). The progress
  lines the loop prints (with the date of \<^verbatim>\<open>ts\<close>) are left out.
\<close>

record usd_data =
  total_usdc :: py_num
  total_txs :: int
  last_block :: int

fun exercise_txs_loop ::
  "(string \<Rightarrow> log_entry list option) \<Rightarrow> account_tx list \<Rightarrow> py_num \<times> int \<times> int
     \<Rightarrow> py_error + py_num \<times> int \<times> int"
where
  "exercise_txs_loop receipt [] acc = Inr acc"
| "exercise_txs_loop receipt (tx # txs) (new_usdc, txs_count, max_block) =
     (case get_usdc_from_receipt (receipt (tx_hash tx)) of
        Inl e \<Rightarrow> Inl e
      | Inr paid \<Rightarrow>
          (case py_int (tx_blockNumber tx) of
             None \<Rightarrow> Inl ValueError
           | Some blk \<Rightarrow>
               (case paid of
                  None \<Rightarrow> exercise_txs_loop receipt txs (new_usdc, txs_count, max max_block blk)
                | Some a \<Rightarrow>
                    (case py_add new_usdc (PyFloat a) of
                       Inl e \<Rightarrow> Inl e
                     | Inr new_usdc' \<Rightarrow>
                         (case py_int (timeStamp tx) of
                            None \<Rightarrow> Inl ValueError
                          | Some ts \<Rightarrow>
                              exercise_txs_loop receipt txs
                                (new_usdc', txs_count + 1, max max_block blk))))))"

fun max_block_loop :: "account_tx list \<Rightarrow> int \<Rightarrow> py_error + int" where
  "max_block_loop [] max_block = Inr max_block"
| "max_block_loop (tx # txs) max_block =
     (case py_int (tx_blockNumber tx) of
        None \<Rightarrow> Inl ValueError
      | Some blk \<Rightarrow> max_block_loop txs (max max_block blk))"

definition update_exercised_usd_main ::
  "usd_data \<Rightarrow> account_tx list \<Rightarrow> (string \<Rightarrow> log_entry list option)
     \<Rightarrow> py_error + usd_data option" where
  "update_exercised_usd_main existing new_txs receipt =
     (let exercise_txs = filter is_exercise new_txs
      in if exercise_txs = [] \<and> new_txs = [] then Inr None
         else
           (case exercise_txs_loop receipt exercise_txs
                   (PyInt 0, total_txs existing, last_block existing) of
              Inl e \<Rightarrow> Inl e
            | Inr (new_usdc, txs_count, max_block) \<Rightarrow>
                (case max_block_loop new_txs max_block of
                   Inl e \<Rightarrow> Inl e
                 | Inr max_block' \<Rightarrow>
                     (case py_add (total_usdc existing) new_usdc of
                        Inl e \<Rightarrow> Inl e
                      | Inr total_usdc' \<Rightarrow>
                          Inr (Some \<lparr>total_usdc = py_round total_usdc' 2,
                                      total_txs = txs_count, last_block = max_block'\<rparr>)))))"

section \<open>The aggregate as a fold from scratch\<close>

text \<open>
  The statistics of fetch\_early\_exits.py in the words of the specification: a fold over
  the full item set, the events that have a record in the cache, with nothing carried
  over from an earlier output. \<open>early_totals\<close> adds the four amounts of every early
  exit to totals that start at the int 0. \<open>new_amounts\<close> are the USDC amounts of the
  newly fetched exercise transactions of update\_exercised\_usd.py.
\<close>

definition resolved_entries :: "penalty_cache \<Rightarrow> withdraw_event list \<Rightarrow> entry list" where
  "resolved_entries cache events =
     List.map_filter (\<lambda>ev. map_option (Pair ev) (cache (ev_tx_hash ev))) events"

fun early_totals ::
  "entry list \<Rightarrow> py_num \<times> py_num \<times> py_num \<times> py_num
     \<Rightarrow> py_error + py_num \<times> py_num \<times> py_num \<times> py_num"
where
  "early_totals [] acc = Inr acc"
| "early_totals (x # xs) (burn, recoup, penalty_sum, locked_sum) =
     (case py_add burn (PyFloat (burn_fee (snd x))) of
        Inl e \<Rightarrow> Inl e
      | Inr burn' \<Rightarrow>
     (case py_add recoup (PyFloat (recoup_fee (snd x))) of
        Inl e \<Rightarrow> Inl e
      | Inr recoup' \<Rightarrow>
     (case py_add penalty_sum (PyFloat (total_penalty (snd x))) of
        Inl e \<Rightarrow> Inl e
      | Inr penalty_sum' \<Rightarrow>
     (case py_add locked_sum (PyFloat (original_locked (snd x))) of
        Inl e \<Rightarrow> Inl e
      | Inr locked_sum' \<Rightarrow> early_totals xs (burn', recoup', penalty_sum', locked_sum')))))"

definition recomputed_stats ::
  "penalty_cache \<Rightarrow> withdraw_event list \<Rightarrow> py_error + exit_stats \<times> entry list" where
  "recomputed_stats cache events =
     (let entries = resolved_entries cache events;
          early = filter (\<lambda>x. is_early_exit (snd x)) entries;
          normal = filter (\<lambda>x. \<not> is_early_exit (snd x)) entries
      in case early_totals early (PyInt 0, PyInt 0, PyInt 0, PyInt 0) of
           Inl e \<Rightarrow> Inl e
         | Inr (burn, recoup, penalty_sum, locked_sum) \<Rightarrow>
             (case percentage penalty_sum locked_sum of
                Inl e \<Rightarrow> Inl e
              | Inr pct \<Rightarrow>
                  Inr (\<lparr>total_early_exits = length early,
                        total_normal_exits = length normal,
                        total_withdrawals = length events,
                        total_burn_fee_dolo = py_round burn 2,
                        total_recoup_fee_dolo = py_round recoup 2,
                        total_penalty_dolo = py_round penalty_sum 2,
                        total_original_locked = py_round locked_sum 2,
                        avg_penalty_pct = py_round pct 2\<rparr>,
                       rev (sort_key (\<lambda>x. timestamp (fst x)) (rev early)))))"

definition new_amounts ::
  "(string \<Rightarrow> log_entry list option) \<Rightarrow> account_tx list \<Rightarrow> py_float list" where
  "new_amounts receipt new_txs =
     List.map_filter
       (\<lambda>tx. case get_usdc_from_receipt (receipt (tx_hash tx)) of
              Inr (Some a) \<Rightarrow> Some a | _ \<Rightarrow> None)
       (filter is_exercise new_txs)"

section \<open>Concrete inputs used below\<close>



text \<open>A call result whose first field is \<open>10^18\<close> and whose second field is 10.\<close>

definition raw_one :: string where
  "raw_one = ''0x0000000000000000000000000000000000000000000000000de0b6b3a7640000000000000000000000000000000000000000000000000000000000000000000a''"

text \<open>A call result whose first field is \<open>2^127\<close> and whose second field is 10.\<close>

definition raw_negative :: string where
  "raw_negative = ''0x0000000000000000000000000000000080000000000000000000000000000000000000000000000000000000000000000000000000000000000000000000000a''"

text \<open>
  An RPC endpoint that answers the first POST with HTTP 429, the second with a list whose
  second entry has an \<^verbatim>\<open>id\<close> out of range (IndexError, after the first entry was
  stored), and the third with the results of both tokens.
\<close>

definition flaky_rpc :: "nat \<Rightarrow> rpc_reply" where
  "flaky_rpc retry =
     (if retry = 0 then Http429
      else if retry = 1 then RpcResults [(0, Some raw_one), (5, None)]
      else RpcResults [(0, Some raw_negative), (1, Some raw_one)])"

text \<open>
  Four transfers of two tokens, out of order: token 1 is minted to 0xAa (block 2) and
  sent on to 0xBb (block 5); token 2 is minted to 0xAa (block 3) and burned (block 4).
\<close>

definition mk_tx :: "string \<Rightarrow> string \<Rightarrow> string \<Rightarrow> string \<Rightarrow> string \<Rightarrow> api_tx" where
  "mk_tx blk idx tok frm to =
     \<lparr>hash = ''0xh'' @ blk @ idx, tokenID = Some tok, logIndex = None, blockNumber = Some blk,
      transactionIndex = Some idx, from_addr = frm, to_addr = to\<rparr>"

definition nft_history :: "api_tx list" where
  "nft_history =
     [mk_tx ''5'' ''0'' ''1'' ''0xAa'' ''0xBb'',
      mk_tx ''4'' ''7'' ''2'' ''0xAa'' ZERO_ADDR,
      mk_tx ''2'' ''1'' ''1'' ZERO_ADDR ''0xAa'',
      mk_tx ''3'' ''0'' ''2'' ZERO_ADDR ''0xAa'']"

definition nft_history_parsed :: "parsed_tx list" where
  "nft_history_parsed =
     [\<lparr>p_block = 5, p_index = 0, token_id = 1, p_from = ''0xAa'', p_to = ''0xBb''\<rparr>,
      \<lparr>p_block = 4, p_index = 7, token_id = 2, p_from = ''0xAa'', p_to = ZERO_ADDR\<rparr>,
      \<lparr>p_block = 2, p_index = 1, token_id = 1, p_from = ZERO_ADDR, p_to = ''0xAa''\<rparr>,
      \<lparr>p_block = 3, p_index = 0, token_id = 2, p_from = ZERO_ADDR, p_to = ''0xAa''\<rparr>]"

text \<open>
  A source of exactly 100 different transactions, one full page of \<open>PAGE_SIZE\<close>.
\<close>

definition numbered_tx :: "nat \<Rightarrow> account_tx" where
  "numbered_tx i =
     \<lparr>tx_hash = replicate (Suc i) (CHR ''a''), tx_blockNumber = ''7'', timeStamp = ''1700000000'',
      methodId = Some EXERCISE_METHOD_ID, isError = Some ''0'', txreceipt_status = Some ''1'',
      input = ''0x''\<rparr>"

definition hundred_txs :: "account_tx list" where
  "hundred_txs = map numbered_tx [0..<100]"

definition hundred_source :: "int \<Rightarrow> nat \<Rightarrow> list_reply" where
  "hundred_source startblock = paged_source PAGE_SIZE hundred_txs"

text \<open>
  Two pages of capacity 4 that overlap on the boundary block 2: the source holds five
  transfers in the blocks 1, 1, 2, 2, 3, the first page ends inside block 2, and the
  second page, requested from block 2 on, starts with the two transfers of block 2 again.
\<close>

definition transfer_item :: "string \<Rightarrow> string \<Rightarrow> string \<Rightarrow> api_tx" where
  "transfer_item h sub blk =
     \<lparr>hash = h, tokenID = Some sub, logIndex = Some sub, blockNumber = Some blk,
      transactionIndex = Some ''0'', from_addr = ''0xAa'', to_addr = ''0xBb''\<rparr>"

definition overlap_page1 :: "api_tx list" where
  "overlap_page1 =
     [transfer_item ''0xa1'' ''1'' ''1'', transfer_item ''0xa1'' ''2'' ''1'',
      transfer_item ''0xc3'' ''3'' ''2'', transfer_item ''0xd4'' ''4'' ''2'']"

definition overlap_page2 :: "api_tx list" where
  "overlap_page2 =
     [transfer_item ''0xc3'' ''3'' ''2'', transfer_item ''0xd4'' ''4'' ''2'',
      transfer_item ''0xe5'' ''5'' ''3'']"

definition overlap_api :: "nat \<Rightarrow> int \<Rightarrow> range_reply" where
  "overlap_api n start_block =
     (if start_block = 0 then Results overlap_page1
      else if start_block = 2 then Results overlap_page2
      else NoTransactions)"

text \<open>
  A source that answers every request with the same full page of 10000 transfers of
  block 5, whatever start block is asked for.
\<close>

definition stuck_page :: "api_tx list" where
  "stuck_page = replicate 10000 (transfer_item ''0xa1'' ''1'' ''5'')"

definition stuck_api :: "nat \<Rightarrow> int \<Rightarrow> range_reply" where
  "stuck_api n start_block = Results stuck_page"

text \<open>
  A cache file holding one entry, and the chunks of the text of a cache of two entries.
\<close>

definition old_cache_text :: string where
  \<open>old_cache_text = ''{"0xaa": {"is_early_exit": false}}''\<close>

definition new_cache_chunks :: "string list" where
  \<open>new_cache_chunks = [''{"0xaa": {"is_early_exit": false}'', '', "0xbb": {"is_early_exit": true}}'']\<close>

definition disk_before :: fs where
  "disk_before = [''early_exits_cache.json'' \<mapsto> old_cache_text]"

text \<open>
  A warm and a cold run. Two withdrawals, the first with its penalty record in the cache;
  three tokens, the first with its locked record in the cache, and an RPC that answers
  every batch with a result for token 2 only.
\<close>

definition exit_a :: withdraw_event where
  "exit_a = \<lparr>provider = ''0xaa'', ev_token_id = 1, ev_value = Finite 95, timestamp = 1700000000,
             block = 10, ev_tx_hash = ''0xaa''\<rparr>"

definition exit_b :: withdraw_event where
  "exit_b = \<lparr>provider = ''0xbb'', ev_token_id = 2, ev_value = Finite 50, timestamp = 1700000500,
             block = 12, ev_tx_hash = ''0xbb''\<rparr>"

definition penalty_a :: penalty where
  "penalty_a =
     \<lparr>burn_fee = Finite 5, recoup_fee = Finite 0, total_penalty = Finite 5,
      original_locked = Finite 100, user_received = Finite 95,
      penalty_pct = PyFloat (Finite 5), is_early_exit = True\<rparr>"

definition penalty_b :: penalty where
  "penalty_b =
     \<lparr>burn_fee = Finite 0, recoup_fee = Finite 0, total_penalty = Finite 0,
      original_locked = Finite 50, user_received = Finite 50,
      penalty_pct = PyFloat (Finite 0), is_early_exit = False\<rparr>"

definition warm_penalty_cache :: penalty_cache where
  "warm_penalty_cache = [''0xaa'' \<mapsto> penalty_a]"

definition sample_resolver :: "string \<Rightarrow> py_error + penalty option" where
  "sample_resolver h =
     (if h = ''0xaa'' then Inr (Some penalty_a)
      else if h = ''0xbb'' then Inr (Some penalty_b) else Inr None)"

definition zero_locked :: locked where
  "zero_locked = \<lparr>amount = PyInt 0, lock_end = 0, error = False\<rparr>"

definition warm_locked_cache :: "int \<rightharpoonup> locked" where
  "warm_locked_cache = [1 \<mapsto> zero_locked]"

definition sample_rpc :: "int list \<Rightarrow> nat \<Rightarrow> rpc_reply" where
  "sample_rpc c retry =
     RpcResults (map (\<lambda>(i, tid). (int i, if tid = 2 then Some raw_negative else None))
                   (zip [0..<length c] c))"

definition sample_resolve :: "int \<Rightarrow> locked option" where
  "sample_resolve tid =
     (if tid = 2
      then Some \<lparr>amount = PyFloat (Finite (- 170141183460469243904)), lock_end = 10,
                  error = False\<rparr>
      else Some zero_locked)"

definition sample_holders :: "holder list" where
  "sample_holders = [\<lparr>holder_address = ''0xbb'', nft_count = 3, token_ids = [1, 2, 3]\<rparr>]"

text \<open>
  One new exercise transaction in block 60 that paid 5 USDC.e to the vester, and the
  totals of an earlier run: 100 USDC in 3 transactions up to block 50.
\<close>

definition exercise_tx :: account_tx where
  "exercise_tx =
     \<lparr>tx_hash = ''0xe1'', tx_blockNumber = ''60'', timeStamp = ''1700000000'',
      methodId = Some ''0xa88f8139'', isError = Some ''0'', txreceipt_status = Some ''1'',
      input = ''0xa88f8139''\<rparr>"

definition usdc_payment :: log_entry where
  "usdc_payment =
     \<lparr>address = ''0x549943e04f40284185054145c6e4e9568c1d3241'',
      topics = [''0xddf252ad1be2c89b69c2b068fc378daa952ba7f163c4a11628f55a4df523b3ef'',
                ''0x00000000000000000000000011111111111111111111111111111111111111aa'',
                ''0x0000000000000000000000003e9b9a16743551da49b5e136c716bba7932d2cec''],
      data = Some ''0x4c4b40''\<rparr>"

text \<open>
  A second exercise transaction, in block 61, that paid 0.005 USDC.e (5000 units).
\<close>

definition small_tx :: account_tx where
  "small_tx =
     \<lparr>tx_hash = ''0xe2'', tx_blockNumber = ''61'', timeStamp = ''1700000100'',
      methodId = Some ''0xa88f8139'', isError = Some ''0'', txreceipt_status = Some ''1'',
      input = ''0xa88f8139''\<rparr>"

definition small_payment :: log_entry where
  "small_payment =
     \<lparr>address = ''0x549943e04f40284185054145c6e4e9568c1d3241'',
      topics = [''0xddf252ad1be2c89b69c2b068fc378daa952ba7f163c4a11628f55a4df523b3ef'',
                ''0x00000000000000000000000011111111111111111111111111111111111111aa'',
                ''0x0000000000000000000000003e9b9a16743551da49b5e136c716bba7932d2cec''],
      data = Some ''0x1388''\<rparr>"

definition exercise_receipt :: "string \<Rightarrow> log_entry list option" where
  "exercise_receipt h =
     (if h = ''0xe1'' then Some [usdc_payment]
      else if h = ''0xe2'' then Some [small_payment] else None)"

definition earlier_totals :: usd_data where
  "earlier_totals = \<lparr>total_usdc = PyFloat (Finite 100), total_txs = 3, last_block = 50\<rparr>"

definition fresh_totals :: usd_data where
  "fresh_totals = \<lparr>total_usdc = PyInt 0, total_txs = 0, last_block = 50\<rparr>"

text \<open>
  Three pages of capacity 2 with a rate-limited request in between: the first page ends
  in block 2; the request from block 2 is first refused and then answered with a full
  page that lies in block 2 and repeats the last transfer of the first page; the start
  block is therefore moved on to block 3, whose page is short.
\<close>

definition retry_api :: "nat \<Rightarrow> int \<Rightarrow> range_reply" where
  "retry_api n start_block =
     (if n = 0 then
        Results [transfer_item ''0xa1'' ''1'' ''1'', transfer_item ''0xc3'' ''3'' ''2'']
      else if n = 1 then RateLimited
      else if n = 2 then
        Results [transfer_item ''0xc3'' ''3'' ''2'', transfer_item ''0xd4'' ''4'' ''2'']
      else if n = 3 then Results [transfer_item ''0xe5'' ''5'' ''3'']
      else NoTransactions)"

definition retry_result :: "api_tx list" where
  "retry_result =
     [transfer_item ''0xa1'' ''1'' ''1'', transfer_item ''0xc3'' ''3'' ''2'',
      transfer_item ''0xd4'' ''4'' ''2'', transfer_item ''0xe5'' ''5'' ''3'']"

text \<open>
  Two pages of the capacity of the scripts: the full page of 10000 copies of one transfer
  of block 5, and a short page from block 5 on that has this transfer again and one of
  block 6.
\<close>

definition tail_page :: "api_tx list" where
  "tail_page = [transfer_item ''0xa1'' ''1'' ''5'', transfer_item ''0xf6'' ''6'' ''6'']"

definition bulk_api :: "nat \<Rightarrow> int \<Rightarrow> range_reply" where
  "bulk_api n start_block = (if start_block = 0 then Results stuck_page else Results tail_page)"

section \<open>Results\<close>

subsection \<open>C8\<close>

text \<open>
  C8, as stated: the durations 5, 45, 200 and 400 days give the bucket counts
  1, 0, 1, 0, 1. The code counts 45 days in "1-3 months" and 200 days in "6-12 months",
  so the stated counts (which add up to three for four durations) are not what the
  fold yields.
\<close>

theorem C8_counterexample:
  "map snd (distribution (map days_to_seconds [5, 45, 200, 400])) \<noteq> [1, 0, 1, 0, 1]"
  by (simp add: distribution_def days_to_seconds_def bucket_of_def bump_def buckets_init_def)

text \<open>
  C8, amended: the durations 5, 45, 200 and 400 days fold to
  "< 1 month": 1, "1-3 months": 1, "3-6 months": 0, "6-12 months": 1, "1-2 years": 1.
\<close>

theorem C8_distribution_scenario:
  "distribution (map days_to_seconds [5, 45, 200, 400]) =
     [(''< 1 month'', 1), (''1-3 months'', 1), (''3-6 months'', 0),
      (''6-12 months'', 1), (''1-2 years'', 1)]"
  by (simp add: distribution_def days_to_seconds_def bucket_of_def bump_def buckets_init_def)

subsection \<open>Helper lemmas on Python numbers\<close>

lemma bit_length_numeral:
  "bit_length (numeral (Num.Bit0 n)) = Suc (bit_length (numeral n))"
  "bit_length (numeral (Num.Bit1 n)) = Suc (bit_length (numeral n))"
  "bit_length 1 = 1" "bit_length 0 = 0"
  by (subst bit_length.simps, simp)+

lemma floor_rat:
  "\<lfloor>(numeral a :: rat) / numeral b\<rfloor> = numeral a div numeral b"
  "\<lfloor>- (numeral a :: rat) / numeral b\<rfloor> = - numeral a div numeral b"
  "\<lceil>(numeral a :: rat) / numeral b\<rceil> = - (- numeral a div numeral b)"
  "\<lfloor>- ((numeral a :: rat) / numeral b)\<rfloor> = - numeral a div numeral b"
proof -
  show "\<lfloor>(numeral a :: rat) / numeral b\<rfloor> = numeral a div numeral b"
    using floor_divide_of_int_eq [of "numeral a" "numeral b", where ?'a = rat] by simp
  show n: "\<lfloor>- (numeral a :: rat) / numeral b\<rfloor> = - numeral a div numeral b"
    using floor_divide_of_int_eq [of "- numeral a" "numeral b", where ?'a = rat] by simp
  show "\<lceil>(numeral a :: rat) / numeral b\<rceil> = - (- numeral a div numeral b)"
    using n by (simp add: ceiling_def)
  show "\<lfloor>- ((numeral a :: rat) / numeral b)\<rfloor> = - numeral a div numeral b"
    using n by simp
qed

lemmas float_eval =
  binary64_def ilog2_def pow2_def round_half_even_def bit_length_numeral Let_def floor_rat
  float_of_int_def int_truediv_def int_op_float_def float_op_int_def


lemma float_round_zero: "float_round (Finite 0) nd = Finite 0"
  by (simp add: binary64_def round_half_even_def)

lemma float_add_zero: "float_add (Finite 0) (Finite 0) = Finite 0"
  by (simp add: binary64_def)



lemma bit_length_bounds:
  "0 < n \<Longrightarrow> 2 ^ (bit_length n - 1) \<le> n \<and> n < 2 ^ bit_length n"
proof (induction n rule: bit_length.induct)
  case (1 n)
  have bl: "bit_length n = Suc (bit_length (n div 2))"
    using 1(2) by (subst bit_length.simps) simp
  show ?case
  proof (cases "n div 2 = 0")
    case True
    then have n1: "n = 1" using 1(2) by presburger
    have "bit_length (n div 2) = 0" using True by (subst bit_length.simps) simp
    then show ?thesis using bl n1 by simp
  next
    case False
    then have pos: "0 < n div 2" using 1(2) by presburger
    have "\<not> n \<le> 0" using 1(2) by simp
    from 1(1) [OF this pos] have
      lo: "2 ^ (bit_length (n div 2) - 1) \<le> n div 2" and
      hi: "n div 2 < 2 ^ bit_length (n div 2)" by simp_all
    define k where "k = bit_length (n div 2)"
    have k1: "1 \<le> k"
    proof (rule ccontr)
      assume "\<not> 1 \<le> k"
      then have "k = 0" by simp
      then show False using hi pos by (simp add: k_def)
    qed
    have p: "(2::int) ^ k = 2 * 2 ^ (k - 1)" using k1 by (cases k) simp_all
    have a: "(2::int) ^ k \<le> n"
    proof -
      have "(2::int) ^ (k - 1) \<le> n div 2" using lo by (simp only: k_def)
      then have "(2::int) ^ k \<le> 2 * (n div 2)" using p by linarith
      also have "\<dots> \<le> n" by presburger
      finally show ?thesis .
    qed
    have b: "n < 2 * 2 ^ k"
    proof -
      have "n div 2 < 2 ^ k" using hi by (simp only: k_def)
      then have "n div 2 + 1 \<le> 2 ^ k" by simp
      then have "2 * (n div 2) + 2 \<le> 2 * 2 ^ k" by simp
      moreover have "n < 2 * (n div 2) + 2" by presburger
      ultimately show ?thesis by linarith
    qed
    have "bit_length n = Suc k" using bl by (simp only: k_def)
    then show ?thesis using a b by simp
  qed
qed

lemma pow2_pos: "0 < pow2 e"
  by (simp add: pow2_def)

lemma pow2_Suc: "pow2 (e + 1) = 2 * pow2 e"
proof (cases "0 \<le> e")
  case True
  then have "nat (e + 1) = Suc (nat e)" by simp
  then show ?thesis using True by (simp add: pow2_def)
next
  case False
  then have "nat (- e) = Suc (nat (- (e + 1)))" by simp
  then show ?thesis using False by (simp add: pow2_def)
qed

lemma pow2_add: "pow2 (a + int n) = pow2 a * 2 ^ n"
proof (induction n)
  case 0
  show ?case by simp
next
  case (Suc n)
  have "a + int (Suc n) = (a + int n) + 1" by simp
  then have "pow2 (a + int (Suc n)) = pow2 ((a + int n) + 1)" by (simp only:)
  also have "\<dots> = 2 * pow2 (a + int n)" by (rule pow2_Suc)
  finally show ?case using Suc by simp
qed

lemma pow2_mono: "a \<le> b \<Longrightarrow> pow2 a \<le> pow2 b"
proof -
  assume "a \<le> b"
  then obtain n where b: "b = a + int n" by (metis zle_iff_zadd)
  have "pow2 a * 1 \<le> pow2 a * 2 ^ n"
    using pow2_pos [of a] by (intro mult_left_mono) simp_all
  then show ?thesis by (simp add: b pow2_add)
qed

lemma pow2_nat: "pow2 (int n) = 2 ^ n"
  by (simp add: pow2_def)

lemma ilog2_bounds:
  assumes "0 < x"
  shows "pow2 (ilog2 x) \<le> x \<and> x < pow2 (ilog2 x + 1)"
proof (cases "1 \<le> x")
  case True
  define n where "n = \<lfloor>x\<rfloor>"
  have n: "0 < n" using True by (simp add: n_def)
  define k where "k = bit_length n"
  from bit_length_bounds [OF n] have lo: "2 ^ (k - 1) \<le> n" and hi: "n < 2 ^ k"
    by (simp_all add: k_def)
  have k1: "1 \<le> k"
  proof (rule ccontr)
    assume "\<not> 1 \<le> k"
    then have "k = 0" by simp
    then show False using hi n by simp
  qed
  have il: "ilog2 x = int (k - 1)" using True k1 by (simp add: ilog2_def n_def k_def)
  have a: "pow2 (ilog2 x) \<le> x"
  proof -
    have "(of_int (2 ^ (k - 1)) :: rat) \<le> of_int n" using lo by (simp only: of_int_le_iff)
    also have "\<dots> \<le> x" by (simp add: n_def)
    finally show ?thesis by (simp add: il pow2_nat)
  qed
  have b: "x < pow2 (ilog2 x + 1)"
  proof -
    have "x < of_int (n + 1)" unfolding n_def by linarith
    also have "\<dots> \<le> of_int (2 ^ k)" using hi by (simp only: of_int_le_iff)
    finally have "x < 2 ^ k" by simp
    moreover have "ilog2 x + 1 = int k" using il k1 by simp
    ultimately show ?thesis by (simp add: pow2_nat)
  qed
  show ?thesis using a b by (rule conjI)
next
  case False
  then have x1: "x < 1" by simp
  define m where "m = \<lceil>1 / x\<rceil> - 1"
  have inv: "1 < 1 / x" using assms x1 by simp
  have m: "0 < m"
  proof -
    have "1 < \<lceil>1 / x\<rceil>" using inv by linarith
    then show ?thesis by (simp add: m_def)
  qed
  define k where "k = bit_length m"
  from bit_length_bounds [OF m] have lo: "2 ^ (k - 1) \<le> m" and hi: "m < 2 ^ k"
    by (simp_all add: k_def)
  have k1: "1 \<le> k"
  proof (rule ccontr)
    assume "\<not> 1 \<le> k"
    then have "k = 0" by simp
    then show False using hi m by simp
  qed
  have il: "ilog2 x = - int k" using False by (simp add: ilog2_def m_def k_def)
  have p: "pow2 (- int k) = 1 / 2 ^ k"
    using k1 by (simp add: pow2_def)
  have p1: "pow2 (- int k + 1) = 1 / 2 ^ (k - 1)"
  proof -
    have "nat (- (- int k + 1)) = k - 1" using k1 by simp
    then show ?thesis using k1 by (simp add: pow2_def)
  qed
  have a: "pow2 (ilog2 x) \<le> x"
  proof -
    have "\<lceil>1 / x\<rceil> \<le> 2 ^ k" using hi by (simp add: m_def)
    then have c: "(of_int \<lceil>1 / x\<rceil> :: rat) \<le> of_int (2 ^ k)" by (simp only: of_int_le_iff)
    have "1 / x \<le> of_int \<lceil>1 / x\<rceil>" by (rule le_of_int_ceiling)
    also note c
    finally have "1 / x \<le> of_int (2 ^ k)" .
    then have "1 / x \<le> 2 ^ k" by simp
    then have "1 \<le> 2 ^ k * x" using assms by (simp add: field_simps)
    then have "1 / 2 ^ k \<le> x" by (simp add: field_simps)
    then show ?thesis by (simp add: il p)
  qed
  have b: "x < pow2 (ilog2 x + 1)"
  proof -
    have "(of_int (2 ^ (k - 1)) :: rat) \<le> of_int m" using lo by (simp only: of_int_le_iff)
    also have "of_int m < 1 / x" unfolding m_def by linarith
    finally have "of_int (2 ^ (k - 1)) < 1 / x" .
    then have "2 ^ (k - 1) < 1 / x" by simp
    then have "2 ^ (k - 1) * x < 1" using assms by (simp add: field_simps)
    then have "x < 1 / 2 ^ (k - 1)" by (simp add: field_simps)
    then have "x < pow2 (- int k + 1)" by (simp only: p1)
    then show ?thesis by (simp only: il)
  qed
  show ?thesis using a b by (rule conjI)
qed

lemma round_half_even_ge: "of_int m \<le> y \<Longrightarrow> m \<le> round_half_even y"
proof -
  assume "of_int m \<le> y"
  then have "m \<le> \<lfloor>y\<rfloor>" by (simp add: le_floor_iff)
  then show ?thesis by (simp add: round_half_even_def Let_def)
qed

lemma round_half_even_le: "y \<le> of_int m \<Longrightarrow> round_half_even y \<le> m"
proof -
  assume a: "y \<le> of_int m"
  show ?thesis
  proof (cases "y = of_int \<lfloor>y\<rfloor>")
    case True
    then have "round_half_even y = \<lfloor>y\<rfloor>" by (simp add: round_half_even_def Let_def)
    moreover have "\<lfloor>y\<rfloor> \<le> m" using a by (simp add: floor_le_iff)
    ultimately show ?thesis by simp
  next
    case False
    then have "of_int \<lfloor>y\<rfloor> < y" using of_int_floor_le [of y] by linarith
    then have "of_int \<lfloor>y\<rfloor> < (of_int m :: rat)" using a by linarith
    then have "\<lfloor>y\<rfloor> < m" by (simp only: of_int_less_iff)
    then have "\<lfloor>y\<rfloor> + 1 \<le> m" by simp
    then show ?thesis by (simp add: round_half_even_def Let_def)
  qed
qed

lemma round_half_even_minus: "round_half_even (- y) = - round_half_even y"
proof (cases "y = of_int \<lfloor>y\<rfloor>")
  case True
  then obtain n where y: "y = of_int n" ..
  have "- y = of_int (- n)" by (simp add: y)
  then have "round_half_even (- y) = - n" by (simp add: round_half_even_def Let_def)
  moreover have "round_half_even y = n" by (simp add: y round_half_even_def Let_def)
  ultimately show ?thesis by simp
next
  case False
  define f where "f = \<lfloor>y\<rfloor>"
  have "of_int f \<le> y" unfolding f_def by (rule of_int_floor_le)
  moreover have "y \<noteq> of_int f" unfolding f_def by (rule False)
  ultimately have lt: "of_int f < y" by linarith
  have ub: "y < of_int f + 1" unfolding f_def by linarith
  have fl: "\<lfloor>- y\<rfloor> = - (f + 1)"
  proof (rule floor_unique)
    show "of_int (- (f + 1)) \<le> - y" using ub by simp
    show "- y < of_int (- (f + 1)) + 1" using lt by simp
  qed
  have d: "- y - of_int \<lfloor>- y\<rfloor> = 1 - (y - of_int f)" by (simp add: fl)
  have ev: "even (- (f + 1)) \<longleftrightarrow> odd f" by simp
  show ?thesis
    unfolding round_half_even_def Let_def d f_def [symmetric] fl
    using ev by (auto simp add: not_less)
qed

lemma binary64_normal:
  assumes lo: "pow2 (- 1022) \<le> x" and hi: "x < 2 ^ 1023"
  shows "\<exists>y. binary64 x = Finite y \<and> binary64 (- x) = Finite (- y)
           \<and> pow2 (ilog2 x) \<le> y \<and> y \<le> pow2 (ilog2 x + 1)"
proof -
  have x0: "0 < x" using lo pow2_pos [of "- 1022"] by linarith
  define e where "e = ilog2 x"
  from ilog2_bounds [OF x0] have b1: "pow2 e \<le> x" and b2: "x < pow2 (e + 1)"
    by (simp_all add: e_def)
  have e_lo: "- 1022 \<le> e"
  proof (rule ccontr)
    assume "\<not> - 1022 \<le> e"
    then have "e + 1 \<le> - 1022" by simp
    then have "pow2 (e + 1) \<le> pow2 (- 1022)" by (rule pow2_mono)
    then show False using lo b2 by linarith
  qed
  have e_hi: "e \<le> 1022"
  proof (rule ccontr)
    assume "\<not> e \<le> 1022"
    then have "1023 \<le> e" by simp
    then have "pow2 1023 \<le> pow2 e" by (rule pow2_mono)
    moreover have "pow2 1023 = 2 ^ 1023" using pow2_nat [of 1023] by simp
    ultimately show False using hi b1 by linarith
  qed
  define q where "q = pow2 (e - 52)"
  have q0: "0 < q" by (simp add: q_def pow2_pos)
  have mx: "max (ilog2 \<bar>x\<bar> - 52) (- 1074) = e - 52" "max (ilog2 \<bar>- x\<bar> - 52) (- 1074) = e - 52"
    using e_lo x0 by (simp_all add: e_def)
  have "e = e - 52 + int 52" by simp
  then have "pow2 e = pow2 (e - 52 + int 52)" by (simp only:)
  then have pe: "pow2 e = q * 2 ^ 52"
    by (simp only: pow2_add q_def)
  have "e + 1 = e - 52 + int 53" by simp
  then have "pow2 (e + 1) = pow2 (e - 52 + int 53)" by (simp only:)
  then have pe1: "pow2 (e + 1) = q * 2 ^ 53"
    by (simp only: pow2_add q_def)
  have "q * 2 ^ 52 \<le> x" using b1 by (simp only: pe)
  then have l: "2 ^ 52 \<le> x / q" using q0 by (simp add: field_simps)
  have "x < q * 2 ^ 53" using b2 by (simp only: pe1)
  then have u: "x / q \<le> 2 ^ 53" using q0 by (simp add: field_simps)
  define m where "m = round_half_even (x / q)"
  have "(of_int (2 ^ 52) :: rat) \<le> x / q" using l by simp
  then have ml: "2 ^ 52 \<le> m" unfolding m_def by (rule round_half_even_ge)
  have "x / q \<le> (of_int (2 ^ 53) :: rat)" using u by simp
  then have mu: "m \<le> 2 ^ 53" unfolding m_def by (rule round_half_even_le)
  define y where "y = of_int m * q"
  have yl: "pow2 e \<le> y"
  proof -
    have "(2 ^ 52 :: rat) \<le> of_int m" using ml by (metis of_int_le_iff of_int_numeral of_int_power)
    then have "2 ^ 52 * q \<le> of_int m * q" using q0 by (intro mult_right_mono) simp_all
    then show ?thesis by (simp add: pe y_def mult.commute)
  qed
  have yu: "y \<le> pow2 (e + 1)"
  proof -
    have "of_int m \<le> (2 ^ 53 :: rat)" using mu by (metis of_int_le_iff of_int_numeral of_int_power)
    then have "of_int m * q \<le> 2 ^ 53 * q" using q0 by (intro mult_right_mono) simp_all
    then show ?thesis by (simp add: pe1 y_def mult.commute)
  qed
  have y0: "0 < y" using yl pow2_pos [of e] by linarith
  have ymax: "y < 2 ^ 1024"
  proof -
    have "e + 1 \<le> 1023" using e_hi by simp
    then have "pow2 (e + 1) \<le> pow2 1023" by (rule pow2_mono)
    moreover have "pow2 1023 = 2 ^ 1023" using pow2_nat [of 1023] by simp
    moreover have "(2::rat) ^ 1023 < 2 ^ 1024" by simp
    ultimately show ?thesis using yu by linarith
  qed
  have xn: "x \<noteq> 0" using x0 by simp
  have c1: "\<not> 2 ^ 1024 \<le> y" using ymax by simp
  have c2: "\<not> y \<le> - (2 ^ 1024)" using y0 by simp
  have c3: "\<not> 2 ^ 1024 \<le> - y" using y0 by simp
  have c4: "\<not> - y \<le> - (2 ^ 1024)" using ymax by simp
  have ym: "of_int m * q = y" by (simp only: y_def)
  have p: "binary64 x = Finite y"
    unfolding binary64_def Let_def mx q_def [symmetric] m_def [symmetric] ym
    using xn c1 c2 by simp
  have r: "round_half_even (- x / q) = - m"
    using round_half_even_minus [of "x / q"] by (simp add: m_def)
  have yn: "of_int (- m) * q = - y" by (simp add: y_def)
  have n: "binary64 (- x) = Finite (- y)"
    unfolding binary64_def Let_def mx q_def [symmetric] r yn
    using xn c3 c4 by simp
  show ?thesis using p n yl yu by (auto simp add: e_def)
qed

lemma scaled_positive:
  assumes "1 \<le> x" and "x < 2 ^ 256"
  shows "\<exists>y1 y2. binary64 x = Finite y1 \<and> binary64 (- x) = Finite (- y1)
           \<and> binary64 (y1 / 10 ^ 18) = Finite y2 \<and> binary64 (- y1 / 10 ^ 18) = Finite (- y2)
           \<and> 0 < y2"
proof -
  have small: "pow2 (- 1022) \<le> 1 / 10 ^ 18" by (simp add: pow2_def)
  have "(1 :: rat) / 10 ^ 18 \<le> 1" by simp
  then have lo: "pow2 (- 1022) \<le> x" using small assms(1) by linarith
  have "(2 :: rat) ^ 256 \<le> 2 ^ 1023" by simp
  then have hi: "x < 2 ^ 1023" using assms(2) by linarith
  from binary64_normal [OF lo hi] obtain y1 where
    y1: "binary64 x = Finite y1" "binary64 (- x) = Finite (- y1)" and
    l1: "pow2 (ilog2 x) \<le> y1" and u1: "y1 \<le> pow2 (ilog2 x + 1)"
    by blast
  have x0: "0 < x" using assms(1) by simp
  from ilog2_bounds [OF x0] have b1: "pow2 (ilog2 x) \<le> x" and b2: "x < pow2 (ilog2 x + 1)"
    by simp_all
  have e0: "0 \<le> ilog2 x"
  proof (rule ccontr)
    assume "\<not> 0 \<le> ilog2 x"
    then have "ilog2 x + 1 \<le> 0" by simp
    then have "pow2 (ilog2 x + 1) \<le> pow2 0" by (rule pow2_mono)
    then show False using b2 assms(1) by (simp add: pow2_def)
  qed
  have "pow2 0 \<le> pow2 (ilog2 x)" using e0 by (rule pow2_mono)
  then have y1_lo: "1 \<le> y1" using l1 by (simp add: pow2_def)
  have "y1 \<le> 2 * pow2 (ilog2 x)" using u1 by (simp only: pow2_Suc)
  then have y1_hi: "y1 < 2 * 2 ^ 256" using b1 assms(2) by linarith
  define x2 where "x2 = y1 / 10 ^ 18"
  have "1 / 10 ^ 18 \<le> x2" using y1_lo by (simp add: x2_def divide_right_mono)
  then have lo2: "pow2 (- 1022) \<le> x2" using small by linarith
  have "x2 \<le> y1" using y1_lo by (simp add: x2_def field_simps)
  moreover have "(2 :: rat) * 2 ^ 256 \<le> 2 ^ 1023" by simp
  ultimately have hi2: "x2 < 2 ^ 1023" using y1_hi by linarith
  from binary64_normal [OF lo2 hi2] obtain y2 where
    y2: "binary64 x2 = Finite y2" "binary64 (- x2) = Finite (- y2)" and
    l2: "pow2 (ilog2 x2) \<le> y2"
    by blast
  have p2: "0 < y2" using l2 pow2_pos [of "ilog2 x2"] by linarith
  have m: "- y1 / 10 ^ 18 = - x2" by (simp add: x2_def)
  have a: "binary64 (y1 / 10 ^ 18) = Finite y2" using y2(1) by (simp only: x2_def)
  have b: "binary64 (- y1 / 10 ^ 18) = Finite (- y2)" using y2(2) by (simp only: m)
  show ?thesis
    using y1 a b p2 by blast
qed

lemma int_over_1e18:
  assumes "\<bar>w\<bar> < 2 ^ 256"
  shows "\<exists>y. int_op_float float_div w (Finite (10 ^ 18)) = Inr (Finite y)
           \<and> (y < 0 \<longleftrightarrow> w < 0) \<and> (0 < y \<longleftrightarrow> 0 < w)"
proof -
  consider "w = 0" | "0 < w" | "w < 0" by linarith
  then show ?thesis
  proof cases
    case 1
    then show ?thesis
      by (simp add: int_op_float_def float_of_int_def binary64_def)
  next
    case 2
    have a: "1 \<le> (of_int w :: rat)" using 2 by simp
    have "w < 2 ^ 256" using assms 2 by simp
    then have "(of_int w :: rat) < of_int (2 ^ 256)" by (simp only: of_int_less_iff)
    then have b: "(of_int w :: rat) < 2 ^ 256" by simp
    from scaled_positive [OF a b] obtain y1 y2 where
      "binary64 (of_int w) = Finite y1" "binary64 (y1 / 10 ^ 18) = Finite y2" "0 < y2"
      by blast
    then show ?thesis using 2
      by (simp add: int_op_float_def float_of_int_def)
  next
    case 3
    have a: "1 \<le> (of_int (- w) :: rat)" using 3 by simp
    have "- w < 2 ^ 256" using assms 3 by simp
    then have "(of_int (- w) :: rat) < of_int (2 ^ 256)" by (simp only: of_int_less_iff)
    then have b: "(of_int (- w) :: rat) < 2 ^ 256" by simp
    from scaled_positive [OF a b] obtain y1 y2 where
      "binary64 (- of_int (- w)) = Finite (- y1)"
      "binary64 (- y1 / 10 ^ 18) = Finite (- y2)" "0 < y2"
      by blast
    then show ?thesis using 3
      by (simp add: int_op_float_def float_of_int_def)
  qed
qed

subsection \<open>Helper lemmas on the resolvers\<close>




lemma decode_locked_None:
  "decode_locked None = Inr \<lparr>amount = PyInt 0, lock_end = 0, error = False\<rparr>"
  by (simp add: decode_locked_def)


lemma decode_locked_long:
  assumes "66 \<le> length raw"
    and "py_int16 (take 64 (drop 2 raw)) = Some v"
    and "py_int16 (take 64 (drop 66 raw)) = Some e"
  shows "decode_locked (Some raw) =
           (case int_op_float float_div (if 2 ^ 127 \<le> v then v - 2 ^ 128 else v)
                   (Finite (10 ^ 18)) of
              Inl err \<Rightarrow> Inl err
            | Inr f \<Rightarrow> Inr \<lparr>amount = PyFloat f, lock_end = e, error = False\<rparr>)"
proof -
  have "raw \<noteq> []" using assms(1) by auto
  then show ?thesis
    using assms by (simp add: decode_locked_def Let_def split: sum.splits)
qed

lemma sint128:
  assumes "0 \<le> v" "v < 2 ^ 128"
  shows "sint (word_of_int v :: 128 word) = (if 2 ^ 127 \<le> v then v - 2 ^ 128 else v)"
proof -
  have "sint (word_of_int v :: 128 word) = (v + 2 ^ 127) mod 2 ^ 128 - 2 ^ 127"
    by (simp add: sint_sbintrunc' signed_take_bit_eq_take_bit_shift take_bit_eq_mod)
  also have "\<dots> = (if 2 ^ 127 \<le> v then v - 2 ^ 128 else v)"
  proof (cases "(2::int) ^ 127 \<le> v")
    case True
    have "(v + 2 ^ 127) mod 2 ^ 128 = (v + 2 ^ 127 - 2 ^ 128) mod 2 ^ 128"
      by (metis mod_diff_right_eq mod_self diff_zero)
    also have "\<dots> = v + 2 ^ 127 - 2 ^ 128"
      using True assms by (intro mod_pos_pos_trivial) auto
    finally show ?thesis using True by simp
  next
    case False
    have "(v + 2 ^ 127) mod 2 ^ 128 = v + 2 ^ 127"
      using False assms by (intro mod_pos_pos_trivial) auto
    then show ?thesis using False by simp
  qed
  finally show ?thesis .
qed

lemma store_results_other:
  "\<forall>(i, r) \<in> set results. py_index ids i \<noteq> Some tid \<Longrightarrow>
     fst (store_results ids results out) tid = out tid"
proof (induction results arbitrary: out)
  case Nil
  show ?case by simp
next
  case (Cons x results)
  obtain i r where x: "x = (i, r)" by (cases x)
  have rest: "\<forall>(i, r) \<in> set results. py_index ids i \<noteq> Some tid"
    using Cons.prems by simp
  show ?case
  proof (cases "py_index ids i")
    case None
    then show ?thesis by (simp add: x)
  next
    case (Some t)
    then have t: "t \<noteq> tid" using Cons.prems x by auto
    show ?thesis
    proof (cases "decode_locked r")
      case (Inl e)
      then show ?thesis using Some by (simp add: x)
    next
      case (Inr l)
      have "fst (store_results ids results (out(t \<mapsto> l))) tid = (out(t \<mapsto> l)) tid"
        by (rule Cons.IH [OF rest])
      then show ?thesis using Some t Inr by (simp add: x)
    qed
  qed
qed

lemma store_results_entry:
  assumes "\<forall>(i, r) \<in> set results. py_index ids i \<noteq> None \<and> (\<exists>l. decode_locked r = Inr l)"
    and "distinct (map (\<lambda>(i, r). py_index ids i) results)"
    and "(idx, res) \<in> set results" and "py_index ids idx = Some tid"
    and "decode_locked res = Inr l"
  shows "store_results ids results out = (fst (store_results ids results out), True)
       \<and> fst (store_results ids results out) tid = Some l"
  using assms
proof (induction results arbitrary: out)
  case Nil
  then show ?case by simp
next
  case (Cons x results)
  obtain i r where x: "x = (i, r)" by (cases x)
  from Cons.prems(1) x obtain t l' where
    t: "py_index ids i = Some t" and l': "decode_locked r = Inr l'"
    by auto
  have all: "\<forall>(i, r) \<in> set results. py_index ids i \<noteq> None \<and> (\<exists>l. decode_locked r = Inr l)"
    using Cons.prems(1) by simp
  have dist: "distinct (map (\<lambda>(i, r). py_index ids i) results)"
    using Cons.prems(2) by simp
  have step: "store_results ids (x # results) out =
      store_results ids results (out(t \<mapsto> l'))"
    using t l' by (simp add: x)
  have ok: "store_results ids results out' =
      (fst (store_results ids results out'), True)" for out'
    using all
  proof (induction results arbitrary: out')
    case Nil
    show ?case by simp
  next
    case (Cons y ys)
    obtain j s where y: "y = (j, s)" by (cases y)
    from Cons.prems y obtain u m where
      um: "py_index ids j = Some u" "decode_locked s = Inr m" by auto
    have rest: "\<forall>(i, r) \<in> set ys. py_index ids i \<noteq> None \<and> (\<exists>l. decode_locked r = Inr l)"
      using Cons.prems by simp
    have "store_results ids ys (out'(u \<mapsto> m)) =
        (fst (store_results ids ys (out'(u \<mapsto> m))), True)"
      by (rule Cons.IH [OF rest])
    then show ?case using um by (simp add: y)
  qed
  show ?case
  proof (cases "(idx, res) \<in> set results")
    case True
    have "store_results ids results (out(t \<mapsto> l')) =
        (fst (store_results ids results (out(t \<mapsto> l'))), True)
      \<and> fst (store_results ids results (out(t \<mapsto> l'))) tid = Some l"
      by (rule Cons.IH [OF all dist True Cons.prems(4,5)])
    then show ?thesis by (simp only: step)
  next
    case False
    then have here: "idx = i" "res = r" using Cons.prems(3) x by auto
    then have tl: "t = tid" "l' = l" using t l' Cons.prems(4,5) by auto
    have "Some tid \<notin> set (map (\<lambda>(i, r). py_index ids i) results)"
      using Cons.prems(2) x t tl by simp
    then have "\<forall>(i, r) \<in> set results. py_index ids i \<noteq> Some tid"
      by (auto simp: image_iff)
    then have "fst (store_results ids results (out(tid \<mapsto> l))) tid = (out(tid \<mapsto> l)) tid"
      by (rule store_results_other)
    then have v: "fst (store_results ids results (out(t \<mapsto> l'))) tid = Some l"
      using tl by simp
    have "store_results ids results (out(t \<mapsto> l')) =
        (fst (store_results ids results (out(t \<mapsto> l'))), True)"
      by (rule ok)
    then show ?thesis using v by (simp only: step)
  qed
qed

lemma store_results_flag:
  "snd (store_results ids results out) \<longleftrightarrow>
     (\<forall>(i, r) \<in> set results. py_index ids i \<noteq> None \<and> (\<exists>l. decode_locked r = Inr l))"
proof (induction results arbitrary: out)
  case Nil
  show ?case by simp
next
  case (Cons x results)
  obtain i r where x: "x = (i, r)" by (cases x)
  show ?case
  proof (cases "py_index ids i")
    case None
    then show ?thesis by (simp add: x)
  next
    case (Some t)
    show ?thesis
    proof (cases "decode_locked r")
      case (Inl e)
      then show ?thesis using Some by (simp add: x)
    next
      case (Inr l)
      have "snd (store_results ids results (out(t \<mapsto> l))) \<longleftrightarrow>
          (\<forall>(i, r) \<in> set results. py_index ids i \<noteq> None \<and> (\<exists>l. decode_locked r = Inr l))"
        by (rule Cons.IH)
      then show ?thesis using Some Inr by (simp add: x)
    qed
  qed
qed

lemma batch_attempts_failed:
  assumes "\<forall>j \<in> set js. \<forall>rs. post j = RpcResults rs \<longrightarrow>
             (\<exists>(i, r) \<in> set rs. py_index ids i = None \<or> (\<exists>e. decode_locked r = Inl e))"
  shows "\<exists>out'. batch_attempts post ids (js @ rest) out = batch_attempts post ids rest out'"
  using assms
proof (induction js arbitrary: out)
  case Nil
  show ?case by auto
next
  case (Cons j js)
  have rest: "\<forall>j \<in> set js. \<forall>rs. post j = RpcResults rs \<longrightarrow>
             (\<exists>(i, r) \<in> set rs. py_index ids i = None \<or> (\<exists>e. decode_locked r = Inl e))"
    using Cons.prems by simp
  show ?case
  proof (cases "post j")
    case Http429
    then show ?thesis using Cons.IH [OF rest, of out] by simp
  next
    case RpcFailure
    then show ?thesis using Cons.IH [OF rest, of out] by simp
  next
    case (RpcResults rs)
    then have "\<exists>(i, r) \<in> set rs. py_index ids i = None \<or> (\<exists>e. decode_locked r = Inl e)"
      using Cons.prems by simp
    then have "\<not> (\<forall>(i, r) \<in> set rs. py_index ids i \<noteq> None \<and> (\<exists>l. decode_locked r = Inr l))"
      by fastforce
    then have "\<not> snd (store_results ids rs out)"
      using store_results_flag [of ids rs out] by blast
    then obtain o' where o': "store_results ids rs out = (o', False)"
      by (cases "store_results ids rs out") auto
    show ?thesis using Cons.IH [OF rest, of o'] RpcResults o' by simp
  qed
qed

lemma make_batch_call_entry:
  assumes "k < 3"
    and "\<forall>j<k. \<forall>rs. post j = RpcResults rs \<longrightarrow>
             (\<exists>(i, r) \<in> set rs. py_index ids i = None \<or> (\<exists>e. decode_locked r = Inl e))"
    and "post k = RpcResults results"
    and "\<forall>(i, r) \<in> set results. py_index ids i \<noteq> None \<and> (\<exists>l. decode_locked r = Inr l)"
    and "distinct (map (\<lambda>(i, r). py_index ids i) results)"
    and "(idx, res) \<in> set results" and "py_index ids idx = Some tid"
    and "decode_locked res = Inr l"
  shows "make_batch_call post ids tid = Some l"
proof -
  have u: "[0..<3] = [0..<k] @ k # [Suc k..<3]"
  proof -
    have "k = 0 \<or> k = 1 \<or> k = 2" using assms(1) by arith
    then show ?thesis by (auto simp add: upt_rec)
  qed
  have f: "\<forall>j \<in> set [0..<k]. \<forall>rs. post j = RpcResults rs \<longrightarrow>
             (\<exists>(i, r) \<in> set rs. py_index ids i = None \<or> (\<exists>e. decode_locked r = Inl e))"
    using assms(2) by simp
  from batch_attempts_failed [OF f, of "k # [Suc k..<3]" Map.empty]
  obtain out where out: "batch_attempts post ids ([0..<k] @ k # [Suc k..<3]) Map.empty =
      batch_attempts post ids (k # [Suc k..<3]) out"
    by blast
  note s = store_results_entry [OF assms(4-8), of out]
  obtain out' where o: "store_results ids results out = (out', True)"
    and v: "out' tid = Some l"
    using s by (cases "store_results ids results out") auto
  have "batch_attempts post ids (k # [Suc k..<3]) out tid = Some l"
    using assms(3) o v by simp
  then show ?thesis
    unfolding make_batch_call_def u out .
qed

lemma raw_negative_fields:
  "66 \<le> length raw_negative"
  "py_int16 (take 64 (drop 2 raw_negative)) = Some (2 ^ 127)"
  "py_int16 (take 64 (drop 66 raw_negative)) = Some 10"
  by (simp_all add: raw_negative_def py_int16_def hex_body_def hex_digit_def strip_def py_space_def)

lemma raw_one_fields:
  "66 \<le> length raw_one"
  "py_int16 (take 64 (drop 2 raw_one)) = Some (10 ^ 18)"
  "py_int16 (take 64 (drop 66 raw_one)) = Some 10"
  by (simp_all add: raw_one_def py_int16_def hex_body_def hex_digit_def strip_def py_space_def)

lemma decode_raw_negative:
  "decode_locked (Some raw_negative) =
     Inr \<lparr>amount = PyFloat (Finite (- 170141183460469243904)), lock_end = 10, error = False\<rparr>"
proof -
  have f: "int_op_float float_div (if (2::int) ^ 127 \<le> 2 ^ 127 then 2 ^ 127 - 2 ^ 128 else 2 ^ 127)
      (Finite (10 ^ 18)) = Inr (Finite (- 170141183460469243904))"
    by (simp add: float_eval)
  show ?thesis using decode_locked_long [OF raw_negative_fields] f by simp
qed

lemma decode_raw_one:
  "decode_locked (Some raw_one) =
     Inr \<lparr>amount = PyFloat (Finite 1), lock_end = 10, error = False\<rparr>"
proof -
  have f: "int_op_float float_div (if (2::int) ^ 127 \<le> 10 ^ 18 then 10 ^ 18 - 2 ^ 128 else 10 ^ 18)
      (Finite (10 ^ 18)) = Inr (Finite 1)"
    by (simp add: float_eval)
  show ?thesis using decode_locked_long [OF raw_one_fields] f by simp
qed

subsection \<open>C7\<close>




subsection \<open>C9\<close>

text \<open>
  C9: let the reply of one of the three attempts be stored without an exception and list
  every token once, the attempts before it having failed (HTTP 429, an exception of the
  POST, or a list with an entry that raises). Then \<^verbatim>\<open>make_batch_call\<close> returns, for a
  result of at least 66 characters whose two fields parse to \<open>v\<close> and \<open>e\<close>, the record
  with the end \<open>e\<close> and the amount \<^verbatim>\<open>w / 1e18\<close>, the float division of the int \<open>w\<close> by
  the float 1e18, where \<open>w\<close> is \<open>v - 2^128\<close> when \<open>v \<ge> 2^127\<close> and \<open>v\<close> otherwise. For a
  field of 64 hexadecimal digits (\<open>0 \<le> v < 2^256\<close>) the amount is a finite float, and it
  is negative exactly when \<open>2^127 \<le> v < 2^128\<close>; for \<open>0 \<le> v < 2^128\<close> the int \<open>w\<close> is the
  two's-complement reading of \<open>v\<close> as a signed 128-bit integer.
\<close>

theorem C9_signed_amount_decoding:
  assumes "k < 3"
    and "\<forall>j<k. \<forall>rs. post j = RpcResults rs \<longrightarrow>
           (\<exists>(i, r) \<in> set rs. py_index ids i = None \<or> (\<exists>e. decode_locked r = Inl e))"
    and "post k = RpcResults results"
    and "\<forall>(i, r) \<in> set results. py_index ids i \<noteq> None \<and> (\<exists>l. decode_locked r = Inr l)"
    and "distinct (map (\<lambda>(i, r). py_index ids i) results)"
    and "(idx, Some raw) \<in> set results" and "py_index ids idx = Some tid"
    and "66 \<le> length raw"
    and "py_int16 (take 64 (drop 2 raw)) = Some v"
    and "py_int16 (take 64 (drop 66 raw)) = Some e"
  shows "\<exists>f. make_batch_call post ids tid = Some \<lparr>amount = PyFloat f, lock_end = e, error = False\<rparr>
           \<and> int_op_float float_div (if 2 ^ 127 \<le> v then v - 2 ^ 128 else v) (Finite (10 ^ 18))
               = Inr f
           \<and> (0 \<le> v \<and> v < 2 ^ 256 \<longrightarrow>
                (\<exists>y. f = Finite y \<and> (y < 0 \<longleftrightarrow> 2 ^ 127 \<le> v \<and> v < 2 ^ 128)))
           \<and> (0 \<le> v \<and> v < 2 ^ 128 \<longrightarrow>
                (if 2 ^ 127 \<le> v then v - 2 ^ 128 else v) = sint (word_of_int v :: 128 word)
                \<and> (sint (word_of_int v :: 128 word) < 0 \<longleftrightarrow> 2 ^ 127 \<le> v))"
proof -
  let ?w = "if 2 ^ 127 \<le> v then v - 2 ^ 128 else v"
  from assms(4,6) obtain l where l: "decode_locked (Some raw) = Inr l" by auto
  note d = decode_locked_long [OF assms(8,9,10)]
  from l d obtain f where
    f: "int_op_float float_div ?w (Finite (10 ^ 18)) = Inr f" and
    lf: "l = \<lparr>amount = PyFloat f, lock_end = e, error = False\<rparr>"
    by (cases "int_op_float float_div ?w (Finite (10 ^ 18))") auto
  have m: "make_batch_call post ids tid = Some \<lparr>amount = PyFloat f, lock_end = e, error = False\<rparr>"
    using make_batch_call_entry [where k = k and post = post and results = results and ids = ids
        and idx = idx and res = "Some raw" and tid = tid and l = l, OF assms(1-7) l] lf
    by simp
  have g: "0 \<le> v \<and> v < 2 ^ 256 \<longrightarrow>
      (\<exists>y. f = Finite y \<and> (y < 0 \<longleftrightarrow> 2 ^ 127 \<le> v \<and> v < 2 ^ 128))"
  proof
    assume v: "0 \<le> v \<and> v < 2 ^ 256"
    then have "\<bar>?w\<bar> < 2 ^ 256" by auto
    from int_over_1e18 [OF this] obtain y where
      y: "int_op_float float_div ?w (Finite (10 ^ 18)) = Inr (Finite y)" and
      n: "y < 0 \<longleftrightarrow> ?w < 0"
      by blast
    have fy: "f = Finite y" using f y by simp
    have "?w < 0 \<longleftrightarrow> 2 ^ 127 \<le> v \<and> v < 2 ^ 128" using v by auto
    then show "\<exists>y. f = Finite y \<and> (y < 0 \<longleftrightarrow> 2 ^ 127 \<le> v \<and> v < 2 ^ 128)"
      using fy n by blast
  qed
  have s: "0 \<le> v \<and> v < 2 ^ 128 \<longrightarrow>
      ?w = sint (word_of_int v :: 128 word)
      \<and> (sint (word_of_int v :: 128 word) < 0 \<longleftrightarrow> 2 ^ 127 \<le> v)"
    by (auto simp add: sint128)
  show ?thesis using m f g s by blast
qed

theorem C9_signed_amount_decoding_witness:
  "make_batch_call flaky_rpc [2, 3] 2 =
     Some \<lparr>amount = PyFloat (Finite (- 170141183460469243904)), lock_end = 10, error = False\<rparr>
   \<and> make_batch_call flaky_rpc [2, 3] 3 =
     Some \<lparr>amount = PyFloat (Finite 1), lock_end = 10, error = False\<rparr>
   \<and> make_batch_call (\<lambda>retry. RpcResults [(0, Some raw_negative)]) [2] 2 =
     Some \<lparr>amount = PyFloat (Finite (- 170141183460469243904)), lock_end = 10, error = False\<rparr>"
proof -
  let ?results = "[(0, Some raw_negative), (1, Some raw_one)]"
  have h0: "(2::nat) < 3" by simp
  have hf: "\<forall>j<2::nat. \<forall>rs. flaky_rpc j = RpcResults rs \<longrightarrow>
      (\<exists>(i, r) \<in> set rs. py_index [2, 3 :: int] i = None \<or> (\<exists>e. decode_locked r = Inl e))"
  proof (intro allI impI)
    fix j :: nat and rs
    assume j: "j < 2" and rs: "flaky_rpc j = RpcResults rs"
    from j have "j = 0 \<or> j = 1" by arith
    then have "rs = [(0, Some raw_one), (5, None)]"
      using rs by (auto simp add: flaky_rpc_def)
    then show "\<exists>(i, r) \<in> set rs. py_index [2, 3 :: int] i = None \<or> (\<exists>e. decode_locked r = Inl e)"
      by (simp add: py_index_def)
  qed
  have h1: "flaky_rpc 2 = RpcResults ?results" by (simp add: flaky_rpc_def)
  have h2: "\<forall>(i, r) \<in> set ?results. py_index [2, 3 :: int] i \<noteq> None \<and> (\<exists>l. decode_locked r = Inr l)"
    by (simp add: py_index_def decode_raw_negative decode_raw_one)
  have h3: "distinct (map (\<lambda>(i, r). py_index [2, 3 :: int] i) ?results)"
    by (simp add: py_index_def)
  have n4: "(0, Some raw_negative) \<in> set ?results" by simp
  have n5: "py_index [2, 3 :: int] 0 = Some (2::int)" by (simp add: py_index_def)
  have o4: "(1, Some raw_one) \<in> set ?results" by simp
  have o5: "py_index [2, 3 :: int] 1 = Some (3::int)" by (simp add: py_index_def)
  have fn: "int_op_float float_div (if (2::int) ^ 127 \<le> 2 ^ 127 then 2 ^ 127 - 2 ^ 128 else 2 ^ 127)
      (Finite (10 ^ 18)) = Inr (Finite (- 170141183460469243904))"
    by (simp add: float_eval)
  have fo: "int_op_float float_div (if (2::int) ^ 127 \<le> 10 ^ 18 then 10 ^ 18 - 2 ^ 128 else 10 ^ 18)
      (Finite (10 ^ 18)) = Inr (Finite 1)"
    by (simp add: float_eval)
  from C9_signed_amount_decoding [OF h0 hf h1 h2 h3 n4 n5 raw_negative_fields]
  have w1: "make_batch_call flaky_rpc [2, 3] 2 =
     Some \<lparr>amount = PyFloat (Finite (- 170141183460469243904)), lock_end = 10, error = False\<rparr>"
    using fn by auto
  from C9_signed_amount_decoding [OF h0 hf h1 h2 h3 o4 o5 raw_one_fields]
  have w2: "make_batch_call flaky_rpc [2, 3] 3 =
     Some \<lparr>amount = PyFloat (Finite 1), lock_end = 10, error = False\<rparr>"
    using fo by auto
  have g0: "(0::nat) < 3" by simp
  have gf: "\<forall>j<0::nat. \<forall>rs. (\<lambda>retry. RpcResults [(0, Some raw_negative)]) j = RpcResults rs \<longrightarrow>
      (\<exists>(i, r) \<in> set rs. py_index [2 :: int] i = None \<or> (\<exists>e. decode_locked r = Inl e))"
    by simp
  have g1: "(\<lambda>retry. RpcResults [(0, Some raw_negative)]) (0::nat) =
      RpcResults [(0, Some raw_negative)]" by simp
  have g2: "\<forall>(i, r) \<in> set [(0, Some raw_negative)].
      py_index [2 :: int] i \<noteq> None \<and> (\<exists>l. decode_locked r = Inr l)"
    by (simp add: py_index_def decode_raw_negative)
  have g3: "distinct (map (\<lambda>(i, r). py_index [2 :: int] i) [(0, Some raw_negative)])"
    by simp
  have g4: "(0, Some raw_negative) \<in> set [(0, Some raw_negative)]" by simp
  have g5: "py_index [2 :: int] 0 = Some (2::int)" by (simp add: py_index_def)
  from C9_signed_amount_decoding [OF g0 gf g1 g2 g3 g4 g5 raw_negative_fields]
  have w3: "make_batch_call (\<lambda>retry. RpcResults [(0, Some raw_negative)]) [2] 2 =
     Some \<lparr>amount = PyFloat (Finite (- 170141183460469243904)), lock_end = 10, error = False\<rparr>"
    using fn by auto
  show ?thesis using w1 w2 w3 by (intro conjI)
qed

subsection \<open>Helper lemmas on build\_ownership\<close>

lemma ownership_loop_map_of:
  "map_of (fst (ownership_loop txs (own, m))) tid =
     (case filter (\<lambda>t. token_id t = tid) txs of
        [] \<Rightarrow> map_of own tid
      | ts \<Rightarrow> Some (lower (p_to (last ts))))"
proof (induction txs arbitrary: own m)
  case Nil
  show ?case by simp
next
  case (Cons tx txs)
  show ?case
  proof (cases "token_id tx = tid")
    case True
    then show ?thesis
      by (simp add: Cons.IH update_conv' split: list.splits)
  next
    case False
    then show ?thesis
      by (simp add: Cons.IH update_conv' split: list.splits)
  qed
qed

lemma ownership_loop_distinct:
  "distinct (map fst own) \<Longrightarrow> distinct (map fst (fst (ownership_loop txs (own, m))))"
  by (induction txs arbitrary: own m) (simp_all add: distinct_update)

lemma active_owners_loop_distinct:
  "distinct (map fst ao) \<Longrightarrow> distinct (map fst (active_owners_loop items ao))"
  by (induction items ao rule: active_owners_loop.induct) (simp_all add: distinct_map_default)

lemma active_owners_loop_map_of:
  "map_of (active_owners_loop items ao) ow =
     (let new = map fst (filter (\<lambda>(t, w). w = ow) items)
      in if ow = lower ZERO_ADDR \<or> new = [] then map_of ao ow
         else Some ((case map_of ao ow of None \<Rightarrow> [] | Some l \<Rightarrow> l) @ new))"
proof (induction items ao rule: active_owners_loop.induct)
  case (1 ao)
  show ?case by simp
next
  case (2 tid owner items ao)
  show ?case
  proof (cases "owner = lower ZERO_ADDR")
    case True
    then show ?thesis using 2 by (auto simp: Let_def)
  next
    case False
    then show ?thesis using 2(2)
      by (auto simp: Let_def map_of_map_default split: option.splits)
  qed
qed

lemma filter_singleton:
  "distinct (map f xs) \<Longrightarrow> x \<in> set xs \<Longrightarrow> (\<And>y. y \<in> set xs \<Longrightarrow> P y \<longleftrightarrow> f y = f x)
   \<Longrightarrow> filter P xs = [x]"
proof (induction xs)
  case Nil
  then show ?case by simp
next
  case (Cons a xs)
  show ?case
  proof (cases "a = x")
    case True
    have "filter P xs = []"
    proof -
      have "\<And>y. y \<in> set xs \<Longrightarrow> f y \<noteq> f x"
        using Cons.prems(1) True by (metis distinct.simps(2) image_eqI list.simps(9) set_map)
      then show ?thesis using Cons.prems(3) by (simp add: filter_empty_conv)
    qed
    then show ?thesis using Cons.prems(3) [of a] True by simp
  next
    case False
    then have "x \<in> set xs" using Cons.prems by simp
    moreover have "f a \<noteq> f x" using Cons.prems(1) \<open>x \<in> set xs\<close> by auto
    ultimately show ?thesis using Cons by auto
  qed
qed


lemma active_owners_init:
  "map_of (active_owners_loop items []) ow =
     (if ow = lower ZERO_ADDR \<or> filter (\<lambda>(t, w). w = ow) items = [] then None
      else Some (map fst (filter (\<lambda>(t, w). w = ow) items)))"
  by (simp add: active_owners_loop_map_of Let_def)

lemma mem_owner_filter:
  "tid \<in> set (map fst (filter (\<lambda>(t, w). w = addr) ownership)) \<longleftrightarrow> (tid, addr) \<in> set ownership"
  by (induction ownership) auto

lemma active_owners_entry:
  assumes "(addr, tids) \<in> set (active_owners_loop ownership [])"
  shows "addr \<noteq> lower ZERO_ADDR \<and> tids = map fst (filter (\<lambda>(t, w). w = addr) ownership)"
proof -
  have "distinct (map fst (active_owners_loop ownership []))"
    by (rule active_owners_loop_distinct) simp
  then have m: "map_of (active_owners_loop ownership []) addr = Some tids"
    using assms by (rule map_of_is_SomeI)
  show ?thesis
  proof (cases "addr = lower ZERO_ADDR \<or> filter (\<lambda>(t, w). w = addr) ownership = []")
    case True
    then have "map_of (active_owners_loop ownership []) addr = None"
      by (simp only: active_owners_init if_True)
    then show ?thesis using m by simp
  next
    case False
    then have "map_of (active_owners_loop ownership []) addr =
        Some (map fst (filter (\<lambda>(t, w). w = addr) ownership))"
      by (simp only: active_owners_init if_False)
    then show ?thesis using m False by simp
  qed
qed


lemma holders_of_properties:
  assumes d: "distinct (map fst ownership)"
    and own: "map_of ownership tid = Some owner"
  shows "if owner = lower ZERO_ADDR
         then \<forall>h \<in> set (holders_of ownership). tid \<notin> set (token_ids h)
         else \<exists>h. filter (\<lambda>h. tid \<in> set (token_ids h)) (holders_of ownership) = [h]
                \<and> holder_address h = owner \<and> distinct (token_ids h)"
proof -
  define ao where "ao = active_owners_loop ownership []"
  define mk :: "string \<times> int list \<Rightarrow> holder"
    where "mk = (\<lambda>(addr, tids). \<lparr>holder_address = addr, nft_count = length tids, token_ids = sort tids\<rparr>)"
  have hs: "holders_of ownership = map mk ao"
    by (simp add: holders_of_def ao_def mk_def)
  have mk_tok: "\<And>a t. token_ids (mk (a, t)) = sort t" by (simp add: mk_def)
  have mk_addr: "\<And>a t. holder_address (mk (a, t)) = a" by (simp add: mk_def)
  have dao: "distinct (map fst ao)"
    unfolding ao_def by (rule active_owners_loop_distinct) simp
  have mem: "(tid, owner) \<in> set ownership"
    using own by (rule map_of_SomeD)
  have uniq: "\<And>w. (tid, w) \<in> set ownership \<Longrightarrow> w = owner"
  proof -
    fix w assume "(tid, w) \<in> set ownership"
    with d have "map_of ownership tid = Some w" by (rule map_of_is_SomeI)
    with own show "w = owner" by simp
  qed
  have has: "\<And>addr tids. (addr, tids) \<in> set ao \<Longrightarrow> tid \<in> set tids \<longleftrightarrow> addr = owner"
  proof -
    fix addr tids assume a: "(addr, tids) \<in> set ao"
    have "tids = map fst (filter (\<lambda>(t, w). w = addr) ownership)"
      using active_owners_entry [OF a [unfolded ao_def]] by simp
    then have "tid \<in> set tids \<longleftrightarrow> (tid, addr) \<in> set ownership"
      by (simp only: mem_owner_filter)
    then show "tid \<in> set tids \<longleftrightarrow> addr = owner" using uniq mem by blast
  qed
  show ?thesis
  proof (cases "owner = lower ZERO_ADDR")
    case True
    have "\<forall>h \<in> set (holders_of ownership). tid \<notin> set (token_ids h)"
    proof
      fix h assume "h \<in> set (holders_of ownership)"
      then obtain y where y: "y \<in> set ao" and h: "h = mk y"
        unfolding hs by auto
      obtain addr tids where yy: "y = (addr, tids)" by (cases y)
      have "addr \<noteq> owner"
        using active_owners_entry [of addr tids ownership] y True by (simp add: yy ao_def)
      then have "tid \<notin> set tids" using has [of addr tids] y yy by simp
      then show "tid \<notin> set (token_ids h)" by (simp add: h yy mk_tok)
    qed
    then show ?thesis using True by simp
  next
    case False
    define tids where "tids = map fst (filter (\<lambda>(t, w). w = owner) ownership)"
    have ne: "filter (\<lambda>(t, w). w = owner) ownership \<noteq> []"
      using mem by (auto simp: filter_empty_conv)
    have "map_of ao owner = Some tids"
      unfolding ao_def tids_def using False ne by (simp only: active_owners_init) simp
    then have inao: "(owner, tids) \<in> set ao" by (rule map_of_SomeD)
    have P: "\<And>y. y \<in> set ao \<Longrightarrow> (tid \<in> set (token_ids (mk y))) \<longleftrightarrow> fst y = fst (owner, tids)"
    proof -
      fix y assume yin: "y \<in> set ao"
      obtain a t where yy: "y = (a, t)" by (cases y)
      show "(tid \<in> set (token_ids (mk y))) \<longleftrightarrow> fst y = fst (owner, tids)"
        using has [of a t] yin by (simp add: yy mk_tok)
    qed
    have "filter (\<lambda>y. tid \<in> set (token_ids (mk y))) ao = [(owner, tids)]"
      using dao inao P by (rule filter_singleton)
    then have f: "filter (\<lambda>h. tid \<in> set (token_ids h)) (holders_of ownership) = [mk (owner, tids)]"
      unfolding hs by (simp only: filter_map comp_def list.map)
    have "distinct tids"
      unfolding tids_def using d by (rule distinct_map_filter)
    then have dt: "distinct (token_ids (mk (owner, tids)))" by (simp add: mk_tok)
    have "holder_address (mk (owner, tids)) = owner" by (rule mk_addr)
    with f dt have "\<exists>h. filter (\<lambda>h. tid \<in> set (token_ids h)) (holders_of ownership) = [h]
                \<and> holder_address h = owner \<and> distinct (token_ids h)" by blast
    then show ?thesis using False by simp
  qed
qed


lemma nft_history_parses: "those (map parse_tx nft_history) = Some nft_history_parsed"
  by code_simp

lemma nft_history_ownership:
  "ownership_of nft_history_parsed = [(1, ''0xbb''), (2, lower ZERO_ADDR)]"
  by code_simp


subsection \<open>C10\<close>

text \<open>
  C10: when every numeric field of the transfers converts, \<^verbatim>\<open>build_ownership\<close> returns;
  the transfers are put in ascending (block number, transaction index) order, equal keys
  keeping their order; each token's owner is the lower-cased \<^verbatim>\<open>to\<close> address of its last
  transfer in that order; a token owned by the zero address is in no holder's
  \<^verbatim>\<open>token_ids\<close>, and any other token is in the \<^verbatim>\<open>token_ids\<close> of exactly one holder of
  the list, the one whose address is its owner, and occurs there once.
\<close>

theorem C10_build_ownership:
  assumes "those (map parse_tx txs) = Some ptxs"
  shows "\<exists>holders stats. build_ownership txs = Inr (holders, stats)
     \<and> sorted (map (\<lambda>t. (p_block t, p_index t)) (sorted_txs ptxs))
     \<and> set (sorted_txs ptxs) = set ptxs
     \<and> (\<forall>k. filter (\<lambda>t. (p_block t, p_index t) = k) (sorted_txs ptxs)
             = filter (\<lambda>t. (p_block t, p_index t) = k) ptxs)
     \<and> (\<forall>tid. map_of (ownership_of ptxs) tid =
           (case filter (\<lambda>t. token_id t = tid) (sorted_txs ptxs) of
              [] \<Rightarrow> None
            | ts \<Rightarrow> Some (lower (p_to (last ts)))))
     \<and> (\<forall>tid owner. map_of (ownership_of ptxs) tid = Some owner \<longrightarrow>
           (if owner = lower ZERO_ADDR
            then \<forall>h \<in> set holders. tid \<notin> set (token_ids h)
            else \<exists>h. filter (\<lambda>h. tid \<in> set (token_ids h)) holders = [h]
                   \<and> holder_address h = owner \<and> distinct (token_ids h)))"
proof -
  define stats where "stats =
    (let (ownership, all_minted) = ownership_loop (sorted_txs ptxs) ([], []);
         burned = int (length (filter (\<lambda>(tid, addr). addr = lower ZERO_ADDR) ownership));
         active_owners = active_owners_loop ownership []
     in \<lparr>total_minted = int (length all_minted), total_burned = burned,
          active_nfts = int (length all_minted) - burned,
          unique_holders = int (length active_owners)\<rparr>)"
  have b: "build_ownership txs = Inr (holders_of (ownership_of ptxs), stats)"
    using assms
    by (simp add: build_ownership_def stats_def ownership_of_def Let_def split: prod.splits)
  have s1: "sorted (map (\<lambda>t. (p_block t, p_index t)) (sorted_txs ptxs))"
    by (simp add: sorted_txs_def)
  have s2: "set (sorted_txs ptxs) = set ptxs"
    by (simp add: sorted_txs_def)
  have s3: "\<forall>k. filter (\<lambda>t. (p_block t, p_index t) = k) (sorted_txs ptxs)
             = filter (\<lambda>t. (p_block t, p_index t) = k) ptxs"
    by (simp add: sorted_txs_def sort_key_stable)
  have m: "\<forall>tid. map_of (ownership_of ptxs) tid =
           (case filter (\<lambda>t. token_id t = tid) (sorted_txs ptxs) of
              [] \<Rightarrow> None
            | ts \<Rightarrow> Some (lower (p_to (last ts))))"
    by (simp add: ownership_of_def ownership_loop_map_of split: list.splits)
  have dd: "distinct (map fst (ownership_of ptxs))"
    unfolding ownership_of_def by (rule ownership_loop_distinct) simp
  have h: "\<forall>tid owner. map_of (ownership_of ptxs) tid = Some owner \<longrightarrow>
           (if owner = lower ZERO_ADDR
            then \<forall>h \<in> set (holders_of (ownership_of ptxs)). tid \<notin> set (token_ids h)
            else \<exists>h. filter (\<lambda>h. tid \<in> set (token_ids h)) (holders_of (ownership_of ptxs)) = [h]
                   \<and> holder_address h = owner \<and> distinct (token_ids h))"
  proof (intro allI impI)
    fix tid owner assume "map_of (ownership_of ptxs) tid = Some owner"
    then show "if owner = lower ZERO_ADDR
            then \<forall>h \<in> set (holders_of (ownership_of ptxs)). tid \<notin> set (token_ids h)
            else \<exists>h. filter (\<lambda>h. tid \<in> set (token_ids h)) (holders_of (ownership_of ptxs)) = [h]
                   \<and> holder_address h = owner \<and> distinct (token_ids h)"
      by (rule holders_of_properties [OF dd])
  qed
  show ?thesis
    apply (rule exI [of _ "holders_of (ownership_of ptxs)"])
    apply (rule exI [of _ stats])
    apply (intro conjI)
         apply (rule b)
        apply (rule s1)
       apply (rule s2)
      apply (rule s3)
     apply (rule m)
    apply (rule h)
    done
qed

theorem C10_build_ownership_witness:
  "\<exists>holders stats. build_ownership nft_history = Inr (holders, stats)
     \<and> map_of (ownership_of nft_history_parsed) 1 = Some ''0xbb''
     \<and> (\<exists>h. filter (\<lambda>h. 1 \<in> set (token_ids h)) holders = [h] \<and> holder_address h = ''0xbb'')
     \<and> map_of (ownership_of nft_history_parsed) 2 = Some (lower ZERO_ADDR)
     \<and> filter (\<lambda>h. 2 \<in> set (token_ids h)) holders = []"
proof -
  have o1: "map_of (ownership_of nft_history_parsed) 1 = Some ''0xbb''"
    by (simp add: nft_history_ownership)
  have o2: "map_of (ownership_of nft_history_parsed) 2 = Some (lower ZERO_ADDR)"
    by (simp add: nft_history_ownership)
  have nz: "''0xbb'' \<noteq> lower ZERO_ADDR"
    by (simp add: ZERO_ADDR_def lower_def)
  from C10_build_ownership [OF nft_history_parses]
  obtain holders stats where b: "build_ownership nft_history = Inr (holders, stats)"
    and h: "\<forall>tid owner. map_of (ownership_of nft_history_parsed) tid = Some owner \<longrightarrow>
           (if owner = lower ZERO_ADDR
            then \<forall>h \<in> set holders. tid \<notin> set (token_ids h)
            else \<exists>h. filter (\<lambda>h. tid \<in> set (token_ids h)) holders = [h]
                   \<and> holder_address h = owner \<and> distinct (token_ids h))"
    by blast
  have "if ''0xbb'' = lower ZERO_ADDR
        then \<forall>h \<in> set holders. 1 \<notin> set (token_ids h)
        else \<exists>h. filter (\<lambda>h. 1 \<in> set (token_ids h)) holders = [h]
               \<and> holder_address h = ''0xbb'' \<and> distinct (token_ids h)"
    using h [rule_format, OF o1] .
  then have a1: "\<exists>h. filter (\<lambda>h. 1 \<in> set (token_ids h)) holders = [h] \<and> holder_address h = ''0xbb''"
    using nz by auto
  have "if lower ZERO_ADDR = lower ZERO_ADDR
        then \<forall>h \<in> set holders. 2 \<notin> set (token_ids h)
        else \<exists>h. filter (\<lambda>h. 2 \<in> set (token_ids h)) holders = [h]
               \<and> holder_address h = lower ZERO_ADDR \<and> distinct (token_ids h)"
    using h [rule_format, OF o2] .
  then have "\<forall>h \<in> set holders. 2 \<notin> set (token_ids h)"
    by simp
  then have a2: "filter (\<lambda>h. 2 \<in> set (token_ids h)) holders = []"
    by (simp add: filter_empty_conv)
  from b o1 a1 o2 a2 show ?thesis by blast
qed

subsection \<open>Helper lemmas on page-number pagination\<close>

lemma page_loop_paged_source:
  assumes P: "0 < P"
  shows "1 \<le> page \<Longrightarrow> page_loop (paged_source P src) P page acc =
     Some (Inr (acc @ drop ((page - 1) * P) src,
                page + length (drop ((page - 1) * P) src) div P))"
proof (induction "length src - (page - 1) * P" arbitrary: page acc rule: less_induct)
  case less
  define rest where "rest = drop ((page - 1) * P) src"
  have lr: "length rest = length src - (page - 1) * P" by (simp add: rest_def)
  have ps_gen: "paged_source P src page = (if take P rest = [] then NotOk else Listed (take P rest))"
    by (simp add: paged_source_def rest_def Let_def)
  have "page_loop (paged_source P src) P page acc =
          Some (Inr (acc @ rest, page + length rest div P))"
  proof (cases "rest = []")
    case True
    then have "paged_source P src page = NotOk"
      by (simp add: ps_gen)
    then show ?thesis
      using True by (subst page_loop.simps) simp
  next
    case False
    then have ps: "paged_source P src page = Listed (take P rest)"
      using P by (simp add: ps_gen)
    have ne: "take P rest \<noteq> []" using False P by simp
    show ?thesis
    proof (cases "length rest < P")
      case True
      then have "take P rest = rest" by simp
      moreover have "length rest div P = 0" using True by simp
      ultimately show ?thesis
        using ps ne True by (subst page_loop.simps) simp
    next
      case False
      then have ge: "P \<le> length rest" by simp
      have lt: "length (take P rest) = P" using ge by simp
      have pp: "(page + 1 - 1) * P = P + (page - 1) * P"
        using less.prems by (cases page) simp_all
      have dr: "drop ((page + 1 - 1) * P) src = drop P rest"
        unfolding pp rest_def by (simp add: add.commute)
      have smaller: "length src - (page + 1 - 1) * P < length src - (page - 1) * P"
        unfolding pp using ge P lr by simp
      have IH: "page_loop (paged_source P src) P (page + 1) (acc @ take P rest) =
          Some (Inr ((acc @ take P rest) @ drop ((page + 1 - 1) * P) src,
                page + 1 + length (drop ((page + 1 - 1) * P) src) div P))"
        by (rule less.hyps [OF smaller]) simp
      have dv: "length rest div P = 1 + (length rest - P) div P"
        using ge P by (simp add: le_div_geq)
      have "page_loop (paged_source P src) P page acc =
            page_loop (paged_source P src) P (page + 1) (acc @ take P rest)"
        using ps ne lt by (subst page_loop.simps) simp
      also have "\<dots> = Some (Inr (acc @ rest, page + length rest div P))"
        unfolding IH dr using dv by simp
      finally show ?thesis .
    qed
  qed
  then show ?case by (simp only: rest_def)
qed

lemma exercise_loop_paged_source:
  assumes P: "0 < P"
  shows "1 \<le> page \<Longrightarrow> exercise_loop (paged_source P src) P page acc =
     Some (Inr (acc @ filter is_exercise (drop ((page - 1) * P) src),
                page + length (drop ((page - 1) * P) src) div P))"
proof (induction "length src - (page - 1) * P" arbitrary: page acc rule: less_induct)
  case less
  define rest where "rest = drop ((page - 1) * P) src"
  have lr: "length rest = length src - (page - 1) * P" by (simp add: rest_def)
  have ps_gen: "paged_source P src page = (if take P rest = [] then NotOk else Listed (take P rest))"
    by (simp add: paged_source_def rest_def Let_def)
  have "exercise_loop (paged_source P src) P page acc =
          Some (Inr (acc @ filter is_exercise rest, page + length rest div P))"
  proof (cases "rest = []")
    case True
    then have "paged_source P src page = NotOk"
      by (simp add: ps_gen)
    then show ?thesis
      using True by (subst exercise_loop.simps) simp
  next
    case False
    then have ps: "paged_source P src page = Listed (take P rest)"
      using P by (simp add: ps_gen)
    have ne: "take P rest \<noteq> []" using False P by simp
    show ?thesis
    proof (cases "length rest < P")
      case True
      then have "take P rest = rest" by simp
      moreover have "length rest div P = 0" using True by simp
      ultimately show ?thesis
        using ps ne True by (subst exercise_loop.simps) simp
    next
      case False
      then have ge: "P \<le> length rest" by simp
      have lt: "length (take P rest) = P" using ge by simp
      have pp: "(page + 1 - 1) * P = P + (page - 1) * P"
        using less.prems by (cases page) simp_all
      have dr: "drop ((page + 1 - 1) * P) src = drop P rest"
        unfolding pp rest_def by (simp add: add.commute)
      have smaller: "length src - (page + 1 - 1) * P < length src - (page - 1) * P"
        unfolding pp using ge P lr by simp
      have IH: "exercise_loop (paged_source P src) P (page + 1) (acc @ filter is_exercise (take P rest)) =
          Some (Inr ((acc @ filter is_exercise (take P rest)) @ filter is_exercise (drop ((page + 1 - 1) * P) src),
                page + 1 + length (drop ((page + 1 - 1) * P) src) div P))"
        by (rule less.hyps [OF smaller]) simp
      have dv: "length rest div P = 1 + (length rest - P) div P"
        using ge P by (simp add: le_div_geq)
      have "exercise_loop (paged_source P src) P page acc =
            exercise_loop (paged_source P src) P (page + 1) (acc @ filter is_exercise (take P rest))"
        using ps ne lt by (subst exercise_loop.simps) simp
      also have "\<dots> = Some (Inr (acc @ filter is_exercise rest, page + length rest div P))"
        unfolding IH dr using dv
        by (simp add: filter_append [symmetric] del: filter_append)
      finally show ?thesis .
    qed
  qed
  then show ?case by (simp only: rest_def)
qed


lemma div_quot_rem: "r < p \<Longrightarrow> (q * p + r) div p = (q::nat)"
  by simp

lemma ceil_div_floor:
  assumes "0 < p"
  shows "n div p + 1 = (if p dvd n then ceil_div n p + 1 else ceil_div n p)"
proof (cases "p dvd n")
  case True
  then obtain q where n: "n = p * q" by (auto elim: dvdE)
  define r where "r = p - 1"
  have rp: "r < p" using assms by (simp add: r_def)
  have "p * q + p - 1 = q * p + r" using assms by (simp add: r_def algebra_simps)
  moreover have "(q * p + r) div p = q" using rp by (rule div_quot_rem)
  ultimately have "(p * q + p - 1) div p = q" by (simp only:)
  moreover have "p * q div p = q" using assms by simp
  ultimately show ?thesis using True by (simp only: ceil_div_def n if_True)

next
  case False
  define r where "r = n mod p"
  define q where "q = n div p"
  have "n mod p \<noteq> 0" using False by (simp add: mod_eq_0_iff_dvd)
  then have r: "0 < r" "r < p" using assms by (simp_all add: r_def)
  have n: "n = q * p + r" by (simp add: q_def r_def)
  define r' where "r' = r - 1"
  have r': "r' < p" "r = Suc r'" using r by (simp_all add: r'_def)
  have "n + p - 1 = (q + 1) * p + r'" by (simp add: n r'(2) algebra_simps)
  moreover have "((q + 1) * p + r') div p = q + 1" using r'(1) by (rule div_quot_rem)
  ultimately have "(n + p - 1) div p = q + 1" by (simp only:)
  then show ?thesis using False by (simp add: ceil_div_def q_def)
qed

subsection \<open>C4\<close>

text \<open>
  C4, as stated: for a source of N items in pages of size P the fetcher issues
  \<open>ceil(N / P)\<close> requests, with no extra request when N is a multiple of P. At
  N = P = 100 the first page is full, so the loop asks for page 2, which is empty: two
  requests, where \<open>ceil(100 / 100) = 1\<close>.
\<close>

theorem C4_counterexample:
  "get_new_transactions hundred_source 0 = Some (Inr (hundred_txs, 2))
   \<and> length hundred_txs = 100
   \<and> ceil_div (length hundred_txs) PAGE_SIZE = 1"
proof -
  have l: "length hundred_txs = 100" by (simp add: hundred_txs_def)
  have "page_loop (paged_source PAGE_SIZE hundred_txs) PAGE_SIZE 1 [] =
      Some (Inr ([] @ drop ((1 - 1) * PAGE_SIZE) hundred_txs,
                 1 + length (drop ((1 - 1) * PAGE_SIZE) hundred_txs) div PAGE_SIZE))"
    by (rule page_loop_paged_source) (simp_all add: PAGE_SIZE_def)
  then have "get_new_transactions hundred_source 0 = Some (Inr (hundred_txs, 2))"
    by (simp add: get_new_transactions_def hundred_source_def l PAGE_SIZE_def)
  then show ?thesis by (simp add: l ceil_div_def PAGE_SIZE_def)
qed

text \<open>
  C4, amended: for a source of N items in pages of size P (P positive) the fetcher
  returns, having issued exactly \<open>N div P + 1\<close> page requests: \<open>ceil(N / P)\<close> when N is
  not a multiple of P, and one more, the request that finds the empty page, when it is.
  \<^verbatim>\<open>get_new_transactions\<close> returns all N items in source order,
  \<^verbatim>\<open>get_all_exercise_txs\<close> the successful exercise transactions among them in source
  order.
\<close>

theorem C4_page_requests:
  assumes "0 < P"
  shows "page_loop (paged_source P src) P 1 [] = Some (Inr (src, length src div P + 1))
     \<and> exercise_loop (paged_source P src) P 1 [] =
         Some (Inr (filter is_exercise src, length src div P + 1))
     \<and> get_new_transactions (\<lambda>startblock. paged_source PAGE_SIZE src) start_block =
         Some (Inr (src, length src div PAGE_SIZE + 1))
     \<and> get_all_exercise_txs (\<lambda>startblock. paged_source PAGE_SIZE src) =
         Some (Inr (filter is_exercise src, length src div PAGE_SIZE + 1))
     \<and> length src div P + 1 =
         (if P dvd length src then ceil_div (length src) P + 1 else ceil_div (length src) P)"
proof -
  have a: "page_loop (paged_source P src) P 1 [] = Some (Inr (src, length src div P + 1))" if "0 < P" for P
    using page_loop_paged_source [OF that, of 1 src "[]"] by simp
  have b: "exercise_loop (paged_source P src) P 1 [] =
         Some (Inr (filter is_exercise src, length src div P + 1))" if "0 < P" for P
    using exercise_loop_paged_source [OF that, of 1 src "[]"] by simp
  have ps: "0 < PAGE_SIZE" by (simp add: PAGE_SIZE_def)
  show ?thesis
    using a [OF assms] b [OF assms] a [OF ps] b [OF ps] ceil_div_floor [OF assms, of "length src"]
    by (simp only: get_new_transactions_def get_all_exercise_txs_def simp_thms)
qed

theorem C4_page_requests_witness:
  "page_loop (paged_source 2 [numbered_tx 0, numbered_tx 1]) 2 1 [] =
      Some (Inr ([numbered_tx 0, numbered_tx 1], 2))
   \<and> ceil_div 2 2 = 1
   \<and> page_loop (paged_source 2 [numbered_tx 0, numbered_tx 1, numbered_tx 2]) 2 1 [] =
      Some (Inr ([numbered_tx 0, numbered_tx 1, numbered_tx 2], 2))
   \<and> ceil_div 3 2 = 2"
proof -
  have p: "0 < (2::nat)" by simp
  show ?thesis
    using C4_page_requests [OF p, of "[numbered_tx 0, numbered_tx 1]"]
      C4_page_requests [OF p, of "[numbered_tx 0, numbered_tx 1, numbered_tx 2]"]
    by (simp add: ceil_div_def)
qed

subsection \<open>Helper lemmas on block-range pagination\<close>

lemma dedup_append: "dedup key (xs @ ys) st = dedup key ys (dedup key xs st)"
proof (induction xs arbitrary: st)
  case Nil
  show ?case by (cases st) simp
next
  case (Cons x xs)
  show ?case by (cases st) (simp add: Cons.IH)
qed

lemma dedup_seen:
  "seen = key ` set acc \<Longrightarrow>
     snd (dedup key xs (acc, seen)) = key ` set (fst (dedup key xs (acc, seen)))"
proof (induction xs arbitrary: acc seen)
  case Nil
  then show ?case by simp
next
  case (Cons x xs)
  show ?case
  proof (cases "key x \<in> seen")
    case True
    then show ?thesis using Cons.IH [OF Cons.prems] by simp
  next
    case False
    have inv: "insert (key x) seen = key ` set (acc @ [x])" using Cons.prems by simp
    show ?thesis using False Cons.IH [OF inv] by simp
  qed
qed

lemma dedup_keys:
  "seen = key ` set acc \<Longrightarrow>
     key ` set (fst (dedup key xs (acc, seen))) = key ` set acc \<union> key ` set xs"
proof (induction xs arbitrary: acc seen)
  case Nil
  then show ?case by simp
next
  case (Cons x xs)
  show ?case
  proof (cases "key x \<in> seen")
    case True
    then show ?thesis using Cons.IH [OF Cons.prems] Cons.prems by auto
  next
    case False
    have inv: "insert (key x) seen = key ` set (acc @ [x])" using Cons.prems by simp
    show ?thesis using False Cons.IH [OF inv] by auto
  qed
qed

lemma dedup_distinct:
  "seen = key ` set acc \<Longrightarrow> distinct (map key acc) \<Longrightarrow>
     distinct (map key (fst (dedup key xs (acc, seen))))"
proof (induction xs arbitrary: acc seen)
  case Nil
  then show ?case by simp
next
  case (Cons x xs)
  show ?case
  proof (cases "key x \<in> seen")
    case True
    then show ?thesis using Cons.IH [OF Cons.prems] by simp
  next
    case False
    have inv: "insert (key x) seen = key ` set (acc @ [x])" using Cons.prems by simp
    have d: "distinct (map key (acc @ [x]))" using False Cons.prems by simp
    show ?thesis using False Cons.IH [OF inv d] by simp
  qed
qed

lemma dedup_filter:
  "seen = key ` set acc \<Longrightarrow>
     filter (\<lambda>t. key t = k) (fst (dedup key xs (acc, seen))) =
       (if k \<in> seen then filter (\<lambda>t. key t = k) acc
        else take 1 (filter (\<lambda>t. key t = k) xs))"
proof (induction xs arbitrary: acc seen)
  case Nil
  have "k \<notin> key ` set acc \<Longrightarrow> filter (\<lambda>t. key t = k) acc = []"
    by (auto simp: filter_empty_conv)
  then show ?case using Nil by simp
next
  case (Cons x xs)
  have empty: "k \<notin> key ` set acc \<Longrightarrow> filter (\<lambda>t. key t = k) acc = []"
    by (auto simp: filter_empty_conv)
  show ?case
  proof (cases "key x \<in> seen")
    case True
    then have "k \<notin> seen \<Longrightarrow> key x \<noteq> k" by auto
    then show ?thesis using True Cons.IH [OF Cons.prems] by simp
  next
    case False
    have inv: "insert (key x) seen = key ` set (acc @ [x])" using Cons.prems by simp
    show ?thesis
      using False Cons.IH [OF inv] empty Cons.prems by auto
  qed
qed

lemma dedup_subset:
  "set (fst (dedup key xs (acc, seen))) \<subseteq> set acc \<union> set xs"
proof (induction xs arbitrary: acc seen)
  case Nil
  show ?case by simp
next
  case (Cons x xs)
  show ?case
  proof (cases "key x \<in> seen")
    case True
    then show ?thesis using Cons.IH [of acc seen] by auto
  next
    case False
    then show ?thesis using Cons.IH [of "acc @ [x]" "insert (key x) seen"] by auto
  qed
qed

lemma dedup_prefix: "\<exists>new. fst (dedup key xs (acc, seen)) = acc @ new"
proof (induction xs arbitrary: acc seen)
  case Nil
  show ?case by simp
next
  case (Cons x xs)
  show ?case
  proof (cases "key x \<in> seen")
    case True
    then show ?thesis using Cons.IH [of acc seen] by simp
  next
    case False
    from Cons.IH [of "acc @ [x]" "insert (key x) seen"] obtain new where
      "fst (dedup key xs (acc @ [x], insert (key x) seen)) = (acc @ [x]) @ new" by blast
    then show ?thesis using False by simp
  qed
qed

lemma dedup_collected:
  assumes "collected key acc seen" and "dedup key xs (acc, seen) = (acc', seen')"
  shows "collected key acc' seen'"
    and "key ` set xs \<subseteq> key ` set acc'"
    and "\<exists>new. acc' = acc @ new"
    and "set acc' \<subseteq> set acc \<union> set xs"
proof -
  have s: "seen = key ` set acc" and d: "distinct (map key acc)"
    using assms(1) by (simp_all add: collected_def)
  have f: "fst (dedup key xs (acc, seen)) = acc'" and sn: "snd (dedup key xs (acc, seen)) = seen'"
    using assms(2) by simp_all
  show "collected key acc' seen'"
    using dedup_seen [OF s, of xs] dedup_distinct [OF s d, of xs] f sn
    by (simp add: collected_def)
  show "key ` set xs \<subseteq> key ` set acc'"
    using dedup_keys [OF s, of xs] f by auto
  show "\<exists>new. acc' = acc @ new" using dedup_prefix [of key xs acc seen] f by simp
  show "set acc' \<subseteq> set acc \<union> set xs" using dedup_subset [of key xs acc seen] f by simp
qed

lemma nft_loop_collects:
  assumes "nft_loop cap api n retry all_txs seen start_block = Some y"
  shows "\<forall>res. y = Inr res \<and> collected nft_key all_txs seen \<longrightarrow>
           distinct (map nft_key res)
         \<and> (\<exists>new. res = all_txs @ new)
         \<and> (\<forall>page. retry < 3 \<and> api n start_block = Results page
               \<longrightarrow> nft_key ` set page \<subseteq> nft_key ` set res)
         \<and> (\<forall>t \<in> set res. t \<in> set all_txs
               \<or> (\<exists>m s page. api m s = Results page \<and> t \<in> set page))"
proof (rule nft_loop.raw_induct [where P = "\<lambda>cap api n retry all_txs seen start_block y.
    \<forall>res. y = Inr res \<and> collected nft_key all_txs seen \<longrightarrow>
           distinct (map nft_key res)
         \<and> (\<exists>new. res = all_txs @ new)
         \<and> (\<forall>page. retry < 3 \<and> api n start_block = Results page
               \<longrightarrow> nft_key ` set page \<subseteq> nft_key ` set res)
         \<and> (\<forall>t \<in> set res. t \<in> set all_txs
               \<or> (\<exists>m s page. api m s = Results page \<and> t \<in> set page))", OF _ assms], goal_cases)
  case (1 nft_loop cap api n retry all_txs seen start_block y)
  show ?case
  proof (intro allI impI)
    fix res
    assume "y = Inr res \<and> collected nft_key all_txs seen"
    then have y: "y = Inr res" and c: "collected nft_key all_txs seen" by simp_all
    have base: "res = all_txs \<Longrightarrow> \<forall>page. api n start_block \<noteq> Results page \<or> \<not> retry < 3 \<Longrightarrow>
      distinct (map nft_key res)
         \<and> (\<exists>new. res = all_txs @ new)
         \<and> (\<forall>page. retry < 3 \<and> api n start_block = Results page
               \<longrightarrow> nft_key ` set page \<subseteq> nft_key ` set res)
         \<and> (\<forall>t \<in> set res. t \<in> set all_txs
               \<or> (\<exists>m s page. api m s = Results page \<and> t \<in> set page))"
      using c by (auto simp add: collected_def)
    have rec: "distinct (map nft_key res)
         \<and> (\<exists>new. res = all_txs @ new)
         \<and> (\<forall>page. retry < 3 \<and> api n start_block = Results page
               \<longrightarrow> nft_key ` set page \<subseteq> nft_key ` set res)
         \<and> (\<forall>t \<in> set res. t \<in> set all_txs
               \<or> (\<exists>m s page. api m s = Results page \<and> t \<in> set page))"
      if call: "nft_loop cap api n' retry' all_txs seen start_block = Some y"
        and no: "\<forall>page. api n start_block \<noteq> Results page"
      for n' retry'
    proof -
      from 1(1) [OF call] y c show ?thesis using no by simp
    qed
    show "distinct (map nft_key res)
         \<and> (\<exists>new. res = all_txs @ new)
         \<and> (\<forall>page. retry < 3 \<and> api n start_block = Results page
               \<longrightarrow> nft_key ` set page \<subseteq> nft_key ` set res)
         \<and> (\<forall>t \<in> set res. t \<in> set all_txs
               \<or> (\<exists>m s page. api m s = Results page \<and> t \<in> set page))"
    proof (cases "3 \<le> retry")
      case True
      then have "res = all_txs" using 1(2) y by simp
      then show ?thesis using base True by simp
    next
      case False
      show ?thesis
      proof (cases "api n start_block")
        case (Results results)
        obtain all' seen' where d: "dedup nft_key results (all_txs, seen) = (all', seen')"
          by (cases "dedup nft_key results (all_txs, seen)")
        note dc = dedup_collected [OF c d]
        have page: "\<forall>page. retry < 3 \<and> api n start_block = Results page
               \<longrightarrow> nft_key ` set page \<subseteq> nft_key ` set all'"
          using Results dc(2) by simp
        have from_api: "\<forall>t \<in> set all'. t \<in> set all_txs
               \<or> (\<exists>m s page. api m s = Results page \<and> t \<in> set page)"
          using dc(4) Results by blast
        have final: "res = all' \<Longrightarrow> ?thesis"
          using dc(1,3) page from_api by (simp add: collected_def)
        have step: ?thesis
          if call: "nft_loop cap api n' retry' all' seen' start' = Some y" for n' retry' start'
        proof -
          from 1(1) [OF call] y dc(1) have
            r1: "distinct (map nft_key res)" and
            r2: "\<exists>new. res = all' @ new" and
            r4: "\<forall>t \<in> set res. t \<in> set all'
               \<or> (\<exists>m s page. api m s = Results page \<and> t \<in> set page)"
            by simp_all
          from r2 dc(3) have p: "\<exists>new. res = all_txs @ new" by auto
          from r2 have sub: "set all' \<subseteq> set res" by auto
          have pg: "\<forall>page. retry < 3 \<and> api n start_block = Results page
               \<longrightarrow> nft_key ` set page \<subseteq> nft_key ` set res"
            using page sub by blast
          have fa: "\<forall>t \<in> set res. t \<in> set all_txs
               \<or> (\<exists>m s page. api m s = Results page \<and> t \<in> set page)"
            using r4 from_api by blast
          show ?thesis using r1 p pg fa by (intro conjI)
        qed
        show ?thesis
        proof (cases "length results < cap")
          case True
          then have "res = all'" using 1(2) y False Results d by simp
          then show ?thesis by (rule final)
        next
          case full: False
          show ?thesis
          proof (cases "int_field (blockNumber (last results)) start_block")
            case None
            then have "nft_loop cap api (n + 1) (retry + 1) all' seen' start_block = Some y"
              using 1(2) False Results d full by simp
            then show ?thesis by (rule step)
          next
            case (Some lb)
            then have "nft_loop cap api (n + 1) 0 all' seen'
                (if lb = start_block then lb + 1 else lb) = Some y"
              using 1(2) False Results d full by simp
            then show ?thesis by (rule step)
          qed
        qed
      next
        case RateLimited
        then have "nft_loop cap api (n + 1) (retry + 1) all_txs seen start_block = Some y"
          using 1(2) False by simp
        then show ?thesis using RateLimited by (intro rec) simp_all
      next
        case NoTransactions
        then have "res = all_txs" using 1(2) y False by simp
        then show ?thesis using base NoTransactions by simp
      next
        case ApiProblem
        then have "res = all_txs" using 1(2) y False by (simp split: if_splits)
        then show ?thesis using base ApiProblem by simp
      next
        case Failure
        then have "nft_loop cap api (n + 1) (retry + 1) all_txs seen start_block = Some y"
          using 1(2) False by simp
        then show ?thesis using Failure by (intro rec) simp_all
      qed
    qed
  qed
qed

lemma erc20_loop_collects:
  assumes "erc20_loop cap api s = Some res"
  shows "collected erc20_key (st_all_txs s) (st_seen s) \<longrightarrow>
           distinct (map erc20_key res)
         \<and> (\<exists>new. res = st_all_txs s @ new)
         \<and> (\<forall>page. st_retry s < 5 \<and> api (st_requests s) (st_start_block s) = Results page
               \<longrightarrow> erc20_key ` set page \<subseteq> erc20_key ` set res)
         \<and> (\<forall>t \<in> set res. t \<in> set (st_all_txs s)
               \<or> (\<exists>m b page. api m b = Results page \<and> t \<in> set page))"
proof (rule erc20_loop.raw_induct [where P = "\<lambda>cap api s res.
    collected erc20_key (st_all_txs s) (st_seen s) \<longrightarrow>
           distinct (map erc20_key res)
         \<and> (\<exists>new. res = st_all_txs s @ new)
         \<and> (\<forall>page. st_retry s < 5 \<and> api (st_requests s) (st_start_block s) = Results page
               \<longrightarrow> erc20_key ` set page \<subseteq> erc20_key ` set res)
         \<and> (\<forall>t \<in> set res. t \<in> set (st_all_txs s)
               \<or> (\<exists>m b page. api m b = Results page \<and> t \<in> set page))", OF _ assms], goal_cases)
  case (1 erc20_loop cap api s res)
  show ?case
  proof (intro impI)
    assume c: "collected erc20_key (st_all_txs s) (st_seen s)"
    let ?goal = "distinct (map erc20_key res)
         \<and> (\<exists>new. res = st_all_txs s @ new)
         \<and> (\<forall>page. st_retry s < 5 \<and> api (st_requests s) (st_start_block s) = Results page
               \<longrightarrow> erc20_key ` set page \<subseteq> erc20_key ` set res)
         \<and> (\<forall>t \<in> set res. t \<in> set (st_all_txs s)
               \<or> (\<exists>m b page. api m b = Results page \<and> t \<in> set page))"
    have base: ?goal
      if "res = st_all_txs s"
        and "\<forall>page. api (st_requests s) (st_start_block s) \<noteq> Results page \<or> \<not> st_retry s < 5"
      using c that by (auto simp add: collected_def)
    have rec: ?goal
      if call: "erc20_loop cap api s' = Some res"
        and same: "st_all_txs s' = st_all_txs s" "st_seen s' = st_seen s"
        and no: "\<forall>page. api (st_requests s) (st_start_block s) \<noteq> Results page \<or> \<not> st_retry s < 5"
      for s'
    proof -
      from 1(1) [OF call] c same show ?thesis using no by auto
    qed
    show ?goal
    proof (cases "5 \<le> st_retry s")
      case True
      show ?thesis
      proof (cases "3 \<le> st_consecutive_errors s + 1")
        case g: True
        then have "res = st_all_txs s" using 1(2) True by simp
        then show ?thesis using True by (intro base) simp_all
      next
        case g: False
        then have "erc20_loop cap api
                (s\<lparr>st_retry := 0, st_start_block := st_start_block s + 10000,
                   st_consecutive_errors := st_consecutive_errors s + 1\<rparr>) = Some res"
          using 1(2) True by simp
        then show ?thesis by (rule rec) (use True in simp_all)
      qed
    next
      case False
      show ?thesis
      proof (cases "api (st_requests s) (st_start_block s)")
        case (Results results)
        obtain all' seen' where
          d: "dedup erc20_key results (st_all_txs s, st_seen s) = (all', seen')"
          by (cases "dedup erc20_key results (st_all_txs s, st_seen s)")
        note dc = dedup_collected [OF c d]
        have page: "\<forall>page. st_retry s < 5 \<and> api (st_requests s) (st_start_block s) = Results page
               \<longrightarrow> erc20_key ` set page \<subseteq> erc20_key ` set all'"
          using Results dc(2) by simp
        have from_api: "\<forall>t \<in> set all'. t \<in> set (st_all_txs s)
               \<or> (\<exists>m b page. api m b = Results page \<and> t \<in> set page)"
          using dc(4) Results by blast
        have final: "res = all' \<Longrightarrow> ?thesis"
          using dc(1,3) page from_api by (simp add: collected_def)
        have step: ?thesis
          if call: "erc20_loop cap api s' = Some res"
            and upd: "st_all_txs s' = all'" "st_seen s' = seen'" for s'
        proof -
          from 1(1) [OF call] dc(1) upd have
            r1: "distinct (map erc20_key res)" and
            r2: "\<exists>new. res = all' @ new" and
            r4: "\<forall>t \<in> set res. t \<in> set all'
               \<or> (\<exists>m b page. api m b = Results page \<and> t \<in> set page)"
            by simp_all
          from r2 dc(3) have p: "\<exists>new. res = st_all_txs s @ new" by auto
          from r2 have sub: "set all' \<subseteq> set res" by auto
          have pg: "\<forall>page. st_retry s < 5 \<and> api (st_requests s) (st_start_block s) = Results page
               \<longrightarrow> erc20_key ` set page \<subseteq> erc20_key ` set res"
            using page sub by blast
          have fa: "\<forall>t \<in> set res. t \<in> set (st_all_txs s)
               \<or> (\<exists>m b page. api m b = Results page \<and> t \<in> set page)"
            using r4 from_api by blast
          show ?thesis using r1 p pg fa by (intro conjI)
        qed
        show ?thesis
        proof (cases "length results < cap")
          case True
          then have "res = all'" using 1(2) False Results d by simp
          then show ?thesis by (rule final)
        next
          case full: False
          show ?thesis
          proof (cases "int_field (blockNumber (last results)) (st_start_block s)")
            case None
            then have "erc20_loop cap api
                (s\<lparr>st_requests := st_requests s + 1, st_retry := st_retry s + 1,
                   st_all_txs := all', st_seen := seen', st_consecutive_errors := 0\<rparr>) = Some res"
              using 1(2) False Results d full by simp
            then show ?thesis by (rule step) simp_all
          next
            case (Some lb)
            then have "erc20_loop cap api
                (s\<lparr>st_requests := st_requests s + 1, st_retry := 0,
                   st_all_txs := all', st_seen := seen',
                   st_start_block := (if lb \<noteq> st_start_block s then lb else lb + 1),
                   st_consecutive_errors := 0\<rparr>) = Some res"
              using 1(2) False Results d full by simp
            then show ?thesis by (rule step) simp_all
          qed
        qed
      next
        case RateLimited
        then have "erc20_loop cap api
            (s\<lparr>st_requests := st_requests s + 1, st_retry := st_retry s + 1\<rparr>) = Some res"
          using 1(2) False by simp
        then show ?thesis by (rule rec) (use RateLimited in simp_all)
      next
        case NoTransactions
        then have "res = st_all_txs s" using 1(2) False by simp
        then show ?thesis using NoTransactions by (intro base) simp_all
      next
        case ApiProblem
        show ?thesis
        proof (cases "3 \<le> st_consecutive_errors s + 1")
          case True
          then have "res = st_all_txs s" using 1(2) False ApiProblem by simp
          then show ?thesis using ApiProblem by (intro base) simp_all
        next
          case g: False
          then have "erc20_loop cap api
                 (s\<lparr>st_requests := st_requests s + 1, st_retry := st_retry s + 1,
                    st_consecutive_errors := st_consecutive_errors s + 1\<rparr>) = Some res"
            using 1(2) False ApiProblem by simp
          then show ?thesis by (rule rec) (use ApiProblem in simp_all)
        qed
      next
        case Failure
        then have "erc20_loop cap api
            (s\<lparr>st_requests := st_requests s + 1, st_retry := st_retry s + 1\<rparr>) = Some res"
          using 1(2) False by simp
        then show ?thesis by (rule rec) (use Failure in simp_all)
      qed
    qed
  qed
qed

lemma nft_loop_served:
  assumes "served cap api n start_block pages" and "retry < 3"
  shows "nft_loop cap api n retry all_txs seen start_block =
           Some (Inr (fst (dedup nft_key (concat pages) (all_txs, seen))))"
  using assms
proof (induction cap api n start_block pages arbitrary: retry all_txs seen rule: served.induct)
  case (1 cap api n start_block)
  then show ?case by simp
next
  case (2 cap api n start_block page)
  obtain all' seen' where d: "dedup nft_key page (all_txs, seen) = (all', seen')"
    by (cases "dedup nft_key page (all_txs, seen)")
  show ?case using 2 d by (subst nft_loop.simps) simp
next
  case (3 cap api n start_block page next_page pages)
  obtain all' seen' where d: "dedup nft_key page (all_txs, seen) = (all', seen')"
    by (cases "dedup nft_key page (all_txs, seen)")
  from 3(2) obtain lb where
    a: "api n start_block = Results page" and f: "cap \<le> length page" and
    lb: "int_field (blockNumber (last page)) start_block = Some lb" and
    s: "served cap api (n + 1) (if lb = start_block then lb + 1 else lb) (next_page # pages)"
    by (auto split: option.splits)
  have "nft_loop cap api n retry all_txs seen start_block =
        nft_loop cap api (n + 1) 0 all' seen' (if lb = start_block then lb + 1 else lb)"
    using a f lb d 3(3) by (subst nft_loop.simps) simp
  also have "\<dots> = Some (Inr (fst (dedup nft_key (concat (next_page # pages)) (all', seen'))))"
    using 3(1) [OF lb s, of 0 all' seen'] by simp
  finally show ?case using d by (simp add: dedup_append)
qed

lemma erc20_loop_served:
  assumes "served cap api (st_requests s) (st_start_block s) pages" and "st_retry s < 5"
  shows "erc20_loop cap api s =
           Some (fst (dedup erc20_key (concat pages) (st_all_txs s, st_seen s)))"
proof -
  have "served cap api n start_block pages \<Longrightarrow> st_requests s = n \<Longrightarrow> st_start_block s = start_block
      \<Longrightarrow> st_retry s < 5 \<Longrightarrow>
      erc20_loop cap api s = Some (fst (dedup erc20_key (concat pages) (st_all_txs s, st_seen s)))"
    for n start_block s
  proof (induction cap api n start_block pages arbitrary: s rule: served.induct)
    case (1 cap api n start_block)
    then show ?case by simp
  next
    case (2 cap api n start_block page)
    obtain all' seen' where d: "dedup erc20_key page (st_all_txs s, st_seen s) = (all', seen')"
      by (cases "dedup erc20_key page (st_all_txs s, st_seen s)")
    show ?case using 2 d by (subst erc20_loop.simps) simp
  next
    case (3 cap api n start_block page next_page pages)
    obtain all' seen' where d: "dedup erc20_key page (st_all_txs s, st_seen s) = (all', seen')"
      by (cases "dedup erc20_key page (st_all_txs s, st_seen s)")
    from 3(2) obtain lb where
      a: "api n start_block = Results page" and f: "cap \<le> length page" and
      lb: "int_field (blockNumber (last page)) start_block = Some lb" and
      sv: "served cap api (n + 1) (if lb = start_block then lb + 1 else lb) (next_page # pages)"
      by (auto split: option.splits)
    define s' where "s' = s\<lparr>st_requests := st_requests s + 1, st_retry := 0,
                   st_all_txs := all', st_seen := seen',
                   st_start_block := (if lb \<noteq> st_start_block s then lb else lb + 1),
                   st_consecutive_errors := 0\<rparr>"
    have "erc20_loop cap api s = erc20_loop cap api s'"
      using a f lb d 3(3,4,5) unfolding s'_def by (subst erc20_loop.simps) simp
    also have "\<dots> = Some (fst (dedup erc20_key (concat (next_page # pages))
                              (st_all_txs s', st_seen s')))"
    proof (rule 3(1) [OF lb sv])
      show "st_requests s' = n + 1" using 3(3) by (simp add: s'_def)
      show "st_start_block s' = (if lb = start_block then lb + 1 else lb)"
        using 3(4) by (simp add: s'_def)
      show "st_retry s' < 5" by (simp add: s'_def)
    qed
    finally show ?case using d by (simp add: dedup_append s'_def)
  qed
  then show ?thesis using assms by simp
qed

lemma composite_key:
  assumes "length (hash t) = length (hash u)"
  shows "nft_key t = nft_key u \<longleftrightarrow> hash t = hash u \<and> sub_index (tokenID t) = sub_index (tokenID u)"
    and "erc20_key t = erc20_key u \<longleftrightarrow>
           hash t = hash u \<and> sub_index (logIndex t) = sub_index (logIndex u)"
  using assms by (simp_all add: nft_key_def erc20_key_def sub_index_def)

lemma filter_key_distinct:
  "distinct (map key acc) \<Longrightarrow> k \<in> key ` set acc \<Longrightarrow>
     \<exists>a. filter (\<lambda>t. key t = k) acc = [a]"
proof (induction acc)
  case Nil
  then show ?case by simp
next
  case (Cons x acc)
  show ?case
  proof (cases "key x = k")
    case True
    then have "k \<notin> key ` set acc" using Cons.prems(1) by auto
    then have "filter (\<lambda>t. key t = k) acc = []" by (auto simp: filter_empty_conv)
    then show ?thesis using True by simp
  next
    case False
    then have "k \<in> key ` set acc" using Cons.prems(2) by auto
    then show ?thesis using Cons.IH Cons.prems(1) False by simp
  qed
qed

lemma dedup_each_once:
  assumes "collected key acc seen"
  shows "each_once key (acc @ xs) (fst (dedup key xs (acc, seen)))"
proof -
  have s: "seen = key ` set acc" and d: "distinct (map key acc)"
    using assms by (simp_all add: collected_def)
  have f: "filter (\<lambda>t. key t = k) (fst (dedup key xs (acc, seen))) =
      take 1 (filter (\<lambda>t. key t = k) (acc @ xs))" for k
  proof (cases "k \<in> seen")
    case True
    then obtain a where a: "filter (\<lambda>t. key t = k) acc = [a]"
      using filter_key_distinct [OF d, of k] s by auto
    show ?thesis using dedup_filter [OF s, of k xs] True a by simp
  next
    case False
    then have "filter (\<lambda>t. key t = k) acc = []" using s by (auto simp: filter_empty_conv)
    then show ?thesis using dedup_filter [OF s, of k xs] False by simp
  qed
  show ?thesis
    unfolding each_once_def
  proof (intro conjI allI)
    show "distinct (map key (fst (dedup key xs (acc, seen))))" by (rule dedup_distinct [OF s d])
    show "key ` set (fst (dedup key xs (acc, seen))) = key ` set (acc @ xs)"
      using dedup_keys [OF s, of xs] by (simp add: image_Un)
    show "set (fst (dedup key xs (acc, seen))) \<subseteq> set (acc @ xs)"
      using dedup_subset [of key xs acc seen] by simp
    show "filter (\<lambda>t. key t = k) (fst (dedup key xs (acc, seen))) =
      take 1 (filter (\<lambda>t. key t = k) (acc @ xs))" for k by (rule f)
  qed
qed

lemma overlap_dedup:
  "fst (dedup nft_key (overlap_page1 @ overlap_page2) ([], {})) =
     overlap_page1 @ [transfer_item ''0xe5'' ''5'' ''3'']"
  by (simp add: overlap_page1_def overlap_page2_def transfer_item_def nft_key_def)

lemma stuck_page_facts:
  "length stuck_page = 10000"
  "int_field (blockNumber (last stuck_page)) s = Some 5"
  by (simp_all add: stuck_page_def transfer_item_def int_field_def py_int_def dec_body_def strip_def py_space_def
      dec_digit_def)

lemma overlap_served: "served 4 overlap_api 0 0 [overlap_page1, overlap_page2]"
  by (simp add: overlap_api_def overlap_page1_def overlap_page2_def transfer_item_def
      int_field_def py_int_def dec_body_def dec_digit_def strip_def py_space_def)

lemma overlap_dedup_erc20:
  "fst (dedup erc20_key (overlap_page1 @ overlap_page2) ([], {})) =
     overlap_page1 @ [transfer_item ''0xe5'' ''5'' ''3'']"
  by (simp add: overlap_page1_def overlap_page2_def transfer_item_def erc20_key_def)

lemma bulk_served: "served 10000 bulk_api 0 0 [stuck_page, tail_page]"
  by (simp add: bulk_api_def stuck_page_facts tail_page_def)

lemma retry_run_nft: "nft_loop 2 retry_api 0 0 [] {} 0 = Some (Inr retry_result)"
proof -
  have i: "int_field (Some ''2'') s = Some 2" for s
    by (simp add: int_field_def py_int_def dec_body_def dec_digit_def strip_def py_space_def)
  have "nft_loop 2 retry_api 0 0 [] {} 0 =
      nft_loop 2 retry_api 1 0
        [transfer_item ''0xa1'' ''1'' ''1'', transfer_item ''0xc3'' ''3'' ''2'']
        {''0xc33'', ''0xa11''} 2"
    by (subst nft_loop.simps) (simp add: retry_api_def transfer_item_def nft_key_def i)
  also have "\<dots> = nft_loop 2 retry_api 2 1
        [transfer_item ''0xa1'' ''1'' ''1'', transfer_item ''0xc3'' ''3'' ''2'']
        {''0xc33'', ''0xa11''} 2"
    by (subst nft_loop.simps) (simp add: retry_api_def eval_nat_numeral)
  also have "\<dots> = nft_loop 2 retry_api 3 0
        [transfer_item ''0xa1'' ''1'' ''1'', transfer_item ''0xc3'' ''3'' ''2'',
         transfer_item ''0xd4'' ''4'' ''2'']
        {''0xd44'', ''0xc33'', ''0xa11''} 3"
    by (subst nft_loop.simps) (simp add: retry_api_def transfer_item_def nft_key_def i)
  also have "\<dots> = Some (Inr retry_result)"
    by (subst nft_loop.simps)
      (simp add: retry_api_def transfer_item_def nft_key_def retry_result_def)
  finally show ?thesis .
qed

lemma retry_run_erc20:
  "erc20_loop 2 retry_api \<lparr>st_requests = 0, st_retry = 0, st_all_txs = [], st_seen = {},
      st_start_block = 0, st_consecutive_errors = 0\<rparr> = Some retry_result"
proof -
  have i: "int_field (Some ''2'') s = Some 2" for s
    by (simp add: int_field_def py_int_def dec_body_def dec_digit_def strip_def py_space_def)
  have "erc20_loop 2 retry_api \<lparr>st_requests = 0, st_retry = 0, st_all_txs = [], st_seen = {},
      st_start_block = 0, st_consecutive_errors = 0\<rparr> =
      erc20_loop 2 retry_api \<lparr>st_requests = 1, st_retry = 0,
        st_all_txs = [transfer_item ''0xa1'' ''1'' ''1'', transfer_item ''0xc3'' ''3'' ''2''],
        st_seen = {''0xc33'', ''0xa11''}, st_start_block = 2, st_consecutive_errors = 0\<rparr>"
    by (subst erc20_loop.simps) (simp add: retry_api_def transfer_item_def erc20_key_def i)
  also have "\<dots> = erc20_loop 2 retry_api \<lparr>st_requests = 2, st_retry = 1,
        st_all_txs = [transfer_item ''0xa1'' ''1'' ''1'', transfer_item ''0xc3'' ''3'' ''2''],
        st_seen = {''0xc33'', ''0xa11''}, st_start_block = 2, st_consecutive_errors = 0\<rparr>"
    by (subst erc20_loop.simps) (simp add: retry_api_def eval_nat_numeral)
  also have "\<dots> = erc20_loop 2 retry_api \<lparr>st_requests = 3, st_retry = 0,
        st_all_txs = [transfer_item ''0xa1'' ''1'' ''1'', transfer_item ''0xc3'' ''3'' ''2'',
         transfer_item ''0xd4'' ''4'' ''2''],
        st_seen = {''0xd44'', ''0xc33'', ''0xa11''}, st_start_block = 3,
        st_consecutive_errors = 0\<rparr>"
    by (subst erc20_loop.simps) (simp add: retry_api_def transfer_item_def erc20_key_def i)
  also have "\<dots> = Some retry_result"
    by (subst erc20_loop.simps)
      (simp add: retry_api_def transfer_item_def erc20_key_def retry_result_def)
  finally show ?thesis .
qed

subsection \<open>C3\<close>

text \<open>
  C3: every run of either fetcher that returns, from any state of its loop in which the
  seen keys are the keys of the list collected so far and whatever replies it meets (pages,
  rate limits, failures), returns a list that has no composite key twice, extends the
  collected list, holds a transfer for every key of the page the current request is
  answered with, and consists of collected transfers and of transfers of pages of the
  source. For every page sequence (full pages and a short last page, each page requested
  from the boundary block of the page before it, so that consecutive pages overlap on
  that block) the fetcher returns, and the returned list has every composite key of the
  pages exactly once, with the first transfer that carries the key; this holds of the two
  functions, whose page capacity is 10000. The composite key is the hash followed by
  the sub-index (tokenID, respectively logIndex): for two hashes of the same length, as
  transaction hashes are, the keys are equal exactly when the hashes and the sub-indices
  are equal.
\<close>

theorem C3_boundary_dedup:
  "(\<forall>res. collected nft_key all_txs seen
          \<and> nft_loop cap api n retry all_txs seen start_block = Some (Inr res) \<longrightarrow>
        distinct (map nft_key res)
      \<and> (\<exists>new. res = all_txs @ new)
      \<and> (\<forall>page. retry < 3 \<and> api n start_block = Results page
            \<longrightarrow> nft_key ` set page \<subseteq> nft_key ` set res)
      \<and> (\<forall>t \<in> set res. t \<in> set all_txs
            \<or> (\<exists>m b page. api m b = Results page \<and> t \<in> set page)))
   \<and> (\<forall>res. collected erc20_key (st_all_txs s) (st_seen s)
          \<and> erc20_loop cap api s = Some res \<longrightarrow>
        distinct (map erc20_key res)
      \<and> (\<exists>new. res = st_all_txs s @ new)
      \<and> (\<forall>page. st_retry s < 5 \<and> api (st_requests s) (st_start_block s) = Results page
            \<longrightarrow> erc20_key ` set page \<subseteq> erc20_key ` set res)
      \<and> (\<forall>t \<in> set res. t \<in> set (st_all_txs s)
            \<or> (\<exists>m b page. api m b = Results page \<and> t \<in> set page)))
   \<and> (served cap api n start_block pages \<and> retry < 3 \<longrightarrow>
        nft_loop cap api n retry all_txs seen start_block =
          Some (Inr (fst (dedup nft_key (concat pages) (all_txs, seen)))))
   \<and> (served cap api (st_requests s) (st_start_block s) pages \<and> st_retry s < 5 \<longrightarrow>
        erc20_loop cap api s =
          Some (fst (dedup erc20_key (concat pages) (st_all_txs s, st_seen s))))
   \<and> (collected key all_txs seen \<longrightarrow>
        each_once key (all_txs @ concat pages) (fst (dedup key (concat pages) (all_txs, seen))))
   \<and> (API_KEY \<noteq> [] \<and> served 10000 api 0 0 pages \<longrightarrow>
        (\<exists>res. fetch_all_nft_transfers API_KEY api = Some (Inr res)
           \<and> each_once nft_key (concat pages) res)
      \<and> (\<exists>res. fetch_erc20_transfers API_KEY api = Some res
           \<and> each_once erc20_key (concat pages) res))
   \<and> (length (hash t) = length (hash u) \<longrightarrow>
        (nft_key t = nft_key u \<longleftrightarrow>
           hash t = hash u \<and> sub_index (tokenID t) = sub_index (tokenID u))
      \<and> (erc20_key t = erc20_key u \<longleftrightarrow>
           hash t = hash u \<and> sub_index (logIndex t) = sub_index (logIndex u)))"
proof -
  have p1: "\<forall>res. collected nft_key all_txs seen
          \<and> nft_loop cap api n retry all_txs seen start_block = Some (Inr res) \<longrightarrow>
        distinct (map nft_key res)
      \<and> (\<exists>new. res = all_txs @ new)
      \<and> (\<forall>page. retry < 3 \<and> api n start_block = Results page
            \<longrightarrow> nft_key ` set page \<subseteq> nft_key ` set res)
      \<and> (\<forall>t \<in> set res. t \<in> set all_txs
            \<or> (\<exists>m b page. api m b = Results page \<and> t \<in> set page))"
  proof (intro allI impI)
    fix res
    assume a: "collected nft_key all_txs seen
          \<and> nft_loop cap api n retry all_txs seen start_block = Some (Inr res)"
    then have run: "nft_loop cap api n retry all_txs seen start_block = Some (Inr res)" by simp
    from nft_loop_collects [OF run, rule_format, of res] a
    show "distinct (map nft_key res)
      \<and> (\<exists>new. res = all_txs @ new)
      \<and> (\<forall>page. retry < 3 \<and> api n start_block = Results page
            \<longrightarrow> nft_key ` set page \<subseteq> nft_key ` set res)
      \<and> (\<forall>t \<in> set res. t \<in> set all_txs
            \<or> (\<exists>m b page. api m b = Results page \<and> t \<in> set page))" by simp
  qed
  have p2: "\<forall>res. collected erc20_key (st_all_txs s) (st_seen s)
          \<and> erc20_loop cap api s = Some res \<longrightarrow>
        distinct (map erc20_key res)
      \<and> (\<exists>new. res = st_all_txs s @ new)
      \<and> (\<forall>page. st_retry s < 5 \<and> api (st_requests s) (st_start_block s) = Results page
            \<longrightarrow> erc20_key ` set page \<subseteq> erc20_key ` set res)
      \<and> (\<forall>t \<in> set res. t \<in> set (st_all_txs s)
            \<or> (\<exists>m b page. api m b = Results page \<and> t \<in> set page))"
  proof (intro allI impI)
    fix res
    assume a: "collected erc20_key (st_all_txs s) (st_seen s) \<and> erc20_loop cap api s = Some res"
    then have run: "erc20_loop cap api s = Some res" by simp
    from erc20_loop_collects [OF run, rule_format] a
    show "distinct (map erc20_key res)
      \<and> (\<exists>new. res = st_all_txs s @ new)
      \<and> (\<forall>page. st_retry s < 5 \<and> api (st_requests s) (st_start_block s) = Results page
            \<longrightarrow> erc20_key ` set page \<subseteq> erc20_key ` set res)
      \<and> (\<forall>t \<in> set res. t \<in> set (st_all_txs s)
            \<or> (\<exists>m b page. api m b = Results page \<and> t \<in> set page))" by simp
  qed
  have p3: "served cap api n start_block pages \<and> retry < 3 \<longrightarrow>
        nft_loop cap api n retry all_txs seen start_block =
          Some (Inr (fst (dedup nft_key (concat pages) (all_txs, seen))))"
    using nft_loop_served by simp
  have p4: "served cap api (st_requests s) (st_start_block s) pages \<and> st_retry s < 5 \<longrightarrow>
        erc20_loop cap api s =
          Some (fst (dedup erc20_key (concat pages) (st_all_txs s, st_seen s)))"
    using erc20_loop_served by simp
  have p5: "collected key all_txs seen \<longrightarrow>
        each_once key (all_txs @ concat pages) (fst (dedup key (concat pages) (all_txs, seen)))"
    using dedup_each_once by simp
  have p6: "API_KEY \<noteq> [] \<and> served 10000 api 0 0 pages \<longrightarrow>
        (\<exists>res. fetch_all_nft_transfers API_KEY api = Some (Inr res)
           \<and> each_once nft_key (concat pages) res)
      \<and> (\<exists>res. fetch_erc20_transfers API_KEY api = Some res
           \<and> each_once erc20_key (concat pages) res)"
  proof
    assume a: "API_KEY \<noteq> [] \<and> served 10000 api 0 0 pages"
    have c: "collected key [] {}" for key :: "api_tx \<Rightarrow> string" by (simp add: collected_def)
    have "fetch_all_nft_transfers API_KEY api =
        Some (Inr (fst (dedup nft_key (concat pages) ([], {}))))"
      using a nft_loop_served [of 10000 api 0 0 pages 0 "[]" "{}"]
      by (simp add: fetch_all_nft_transfers_def)
    then have n: "\<exists>res. fetch_all_nft_transfers API_KEY api = Some (Inr res)
           \<and> each_once nft_key (concat pages) res"
      using dedup_each_once [OF c, of nft_key "concat pages"] by simp
    have "fetch_erc20_transfers API_KEY api =
        Some (fst (dedup erc20_key (concat pages) ([], {})))"
      using a erc20_loop_served [of 10000 api "\<lparr>st_requests = 0, st_retry = 0, st_all_txs = [],
        st_seen = {}, st_start_block = 0, st_consecutive_errors = 0\<rparr>" pages]
      by (simp add: fetch_erc20_transfers_def)
    then have e: "\<exists>res. fetch_erc20_transfers API_KEY api = Some res
           \<and> each_once erc20_key (concat pages) res"
      using dedup_each_once [OF c, of erc20_key "concat pages"] by simp
    show "(\<exists>res. fetch_all_nft_transfers API_KEY api = Some (Inr res)
           \<and> each_once nft_key (concat pages) res)
      \<and> (\<exists>res. fetch_erc20_transfers API_KEY api = Some res
           \<and> each_once erc20_key (concat pages) res)"
      using n e by (rule conjI)
  qed
  have p7: "length (hash t) = length (hash u) \<longrightarrow>
        (nft_key t = nft_key u \<longleftrightarrow>
           hash t = hash u \<and> sub_index (tokenID t) = sub_index (tokenID u))
      \<and> (erc20_key t = erc20_key u \<longleftrightarrow>
           hash t = hash u \<and> sub_index (logIndex t) = sub_index (logIndex u))"
    using composite_key by blast
  show ?thesis using p1 p2 p3 p4 p5 p6 p7 by (intro conjI)
qed

theorem C3_boundary_dedup_witness:
  "nft_loop 4 overlap_api 0 0 [] {} 0 =
     Some (Inr (overlap_page1 @ [transfer_item ''0xe5'' ''5'' ''3'']))
   \<and> erc20_loop 4 overlap_api \<lparr>st_requests = 0, st_retry = 0, st_all_txs = [], st_seen = {},
        st_start_block = 0, st_consecutive_errors = 0\<rparr> =
     Some (overlap_page1 @ [transfer_item ''0xe5'' ''5'' ''3''])
   \<and> each_once nft_key (overlap_page1 @ overlap_page2)
        (overlap_page1 @ [transfer_item ''0xe5'' ''5'' ''3''])
   \<and> each_once erc20_key (overlap_page1 @ overlap_page2)
        (overlap_page1 @ [transfer_item ''0xe5'' ''5'' ''3''])
   \<and> nft_loop 2 retry_api 0 0 [] {} 0 = Some (Inr retry_result)
   \<and> erc20_loop 2 retry_api \<lparr>st_requests = 0, st_retry = 0, st_all_txs = [], st_seen = {},
        st_start_block = 0, st_consecutive_errors = 0\<rparr> = Some retry_result
   \<and> distinct (map nft_key retry_result) \<and> distinct (map erc20_key retry_result)
   \<and> nft_key ` set [transfer_item ''0xa1'' ''1'' ''1'', transfer_item ''0xc3'' ''3'' ''2'']
        \<subseteq> nft_key ` set retry_result
   \<and> (\<exists>res. fetch_all_nft_transfers ''key'' bulk_api = Some (Inr res)
         \<and> each_once nft_key (concat [stuck_page, tail_page]) res)
   \<and> (\<exists>res. fetch_erc20_transfers ''key'' bulk_api = Some res
         \<and> each_once erc20_key (concat [stuck_page, tail_page]) res)
   \<and> nft_key (transfer_item ''0xa1'' ''1'' ''1'') \<noteq> nft_key (transfer_item ''0xa1'' ''2'' ''1'')
   \<and> erc20_key (transfer_item ''0xa1'' ''1'' ''1'') \<noteq> erc20_key (transfer_item ''0xc3'' ''1'' ''1'')"
proof -
  let ?init = "\<lparr>st_requests = 0, st_retry = 0, st_all_txs = [], st_seen = {},
        st_start_block = 0, st_consecutive_errors = 0\<rparr>"
  have c: "collected key [] {}" for key :: "api_tx \<Rightarrow> string" by (simp add: collected_def)
  note o = C3_boundary_dedup [where all_txs = "[]" and seen = "{}" and cap = 4
      and api = overlap_api and n = 0 and retry = 0 and start_block = 0 and s = ?init
      and pages = "[overlap_page1, overlap_page2]"]
  have w1: "nft_loop 4 overlap_api 0 0 [] {} 0 =
     Some (Inr (overlap_page1 @ [transfer_item ''0xe5'' ''5'' ''3'']))"
    using o [THEN conjunct2, THEN conjunct2, THEN conjunct1] overlap_served
    by (simp add: overlap_dedup)
  have w2: "erc20_loop 4 overlap_api ?init =
     Some (overlap_page1 @ [transfer_item ''0xe5'' ''5'' ''3''])"
    using o [THEN conjunct2, THEN conjunct2, THEN conjunct2, THEN conjunct1] overlap_served
    by (simp add: overlap_dedup_erc20)
  have w3: "each_once nft_key (overlap_page1 @ overlap_page2)
        (overlap_page1 @ [transfer_item ''0xe5'' ''5'' ''3''])"
    using C3_boundary_dedup [where all_txs = "[]" and seen = "{}" and key = nft_key
      and pages = "[overlap_page1, overlap_page2]",
      THEN conjunct2, THEN conjunct2, THEN conjunct2, THEN conjunct2, THEN conjunct1]
      c overlap_dedup by simp
  have w4: "each_once erc20_key (overlap_page1 @ overlap_page2)
        (overlap_page1 @ [transfer_item ''0xe5'' ''5'' ''3''])"
    using C3_boundary_dedup [where all_txs = "[]" and seen = "{}" and key = erc20_key
      and pages = "[overlap_page1, overlap_page2]",
      THEN conjunct2, THEN conjunct2, THEN conjunct2, THEN conjunct2, THEN conjunct1]
      c overlap_dedup_erc20 by simp
  note r = C3_boundary_dedup [where all_txs = "[]" and seen = "{}" and cap = 2
      and api = retry_api and n = 0 and retry = 0 and start_block = 0 and s = ?init]
  have n: "distinct (map nft_key retry_result)
      \<and> (\<exists>new. retry_result = [] @ new)
      \<and> (\<forall>page. (0::nat) < 3 \<and> retry_api 0 0 = Results page
            \<longrightarrow> nft_key ` set page \<subseteq> nft_key ` set retry_result)
      \<and> (\<forall>t \<in> set retry_result. t \<in> set []
            \<or> (\<exists>m b page. retry_api m b = Results page \<and> t \<in> set page))"
    using r [THEN conjunct1, rule_format, of retry_result] c retry_run_nft by simp
  have w7: "distinct (map nft_key retry_result)" using n by (rule conjunct1)
  have pg: "retry_api 0 0 =
      Results [transfer_item ''0xa1'' ''1'' ''1'', transfer_item ''0xc3'' ''3'' ''2'']"
    by (simp add: retry_api_def)
  have w9: "nft_key ` set [transfer_item ''0xa1'' ''1'' ''1'', transfer_item ''0xc3'' ''3'' ''2'']
        \<subseteq> nft_key ` set retry_result"
    using n [THEN conjunct2, THEN conjunct2, THEN conjunct1, rule_format, OF conjI, OF _ pg]
    by simp
  have e: "distinct (map erc20_key retry_result)
      \<and> (\<exists>new. retry_result = st_all_txs ?init @ new)
      \<and> (\<forall>page. st_retry ?init < 5
               \<and> retry_api (st_requests ?init) (st_start_block ?init) = Results page
            \<longrightarrow> erc20_key ` set page \<subseteq> erc20_key ` set retry_result)
      \<and> (\<forall>t \<in> set retry_result. t \<in> set (st_all_txs ?init)
            \<or> (\<exists>m b page. retry_api m b = Results page \<and> t \<in> set page))"
    using r [THEN conjunct2, THEN conjunct1, rule_format, of retry_result] c retry_run_erc20
    by simp
  have w8: "distinct (map erc20_key retry_result)" using e by (rule conjunct1)
  note b = C3_boundary_dedup [where api = bulk_api and pages = "[stuck_page, tail_page]"
      and API_KEY = "''key''",
      THEN conjunct2, THEN conjunct2, THEN conjunct2, THEN conjunct2, THEN conjunct2,
      THEN conjunct1]
  have w10: "(\<exists>res. fetch_all_nft_transfers ''key'' bulk_api = Some (Inr res)
         \<and> each_once nft_key (concat [stuck_page, tail_page]) res)
      \<and> (\<exists>res. fetch_erc20_transfers ''key'' bulk_api = Some res
         \<and> each_once erc20_key (concat [stuck_page, tail_page]) res)"
    using b bulk_served by simp
  have w12: "nft_key (transfer_item ''0xa1'' ''1'' ''1'')
      \<noteq> nft_key (transfer_item ''0xa1'' ''2'' ''1'')"
    using C3_boundary_dedup [where t = "transfer_item ''0xa1'' ''1'' ''1''"
        and u = "transfer_item ''0xa1'' ''2'' ''1''", THEN conjunct2, THEN conjunct2,
        THEN conjunct2, THEN conjunct2, THEN conjunct2, THEN conjunct2]
    by (simp add: transfer_item_def sub_index_def)
  have w13: "erc20_key (transfer_item ''0xa1'' ''1'' ''1'')
      \<noteq> erc20_key (transfer_item ''0xc3'' ''1'' ''1'')"
    using C3_boundary_dedup [where t = "transfer_item ''0xa1'' ''1'' ''1''"
        and u = "transfer_item ''0xc3'' ''1'' ''1''", THEN conjunct2, THEN conjunct2,
        THEN conjunct2, THEN conjunct2, THEN conjunct2, THEN conjunct2]
    by (simp add: transfer_item_def sub_index_def)
  show ?thesis
    using w1 w2 w3 w4 retry_run_nft retry_run_erc20 w7 w8 w9 w10 [THEN conjunct1]
      w10 [THEN conjunct2] w12 w13
    by (intro conjI)
qed

subsection \<open>Helper lemmas on termination of the block-range loops\<close>

lemma nft_loop_stuck:
  assumes "nft_loop cap api n retry all_txs seen_hashes start_block = Some y"
  shows "cap = 10000 \<longrightarrow> api = stuck_api \<longrightarrow> retry < 3 \<longrightarrow> False"
proof (rule nft_loop.raw_induct [where P = "\<lambda>cap api n retry all_txs seen_hashes start_block y.
    cap = 10000 \<longrightarrow> api = stuck_api \<longrightarrow> retry < 3 \<longrightarrow> False", OF _ assms], goal_cases)
  case (1 nft_loop cap api n retry all_txs seen_hashes start_block y)
  show ?case
  proof (intro impI)
    assume c: "cap = 10000" and a: "api = stuck_api" and r: "retry < 3"
    obtain all' seen' where d: "dedup nft_key stuck_page (all_txs, seen_hashes) = (all', seen')"
      by (cases "dedup nft_key stuck_page (all_txs, seen_hashes)")
    have "nft_loop cap api (n + 1) 0 all' seen' (if 5 = start_block then 5 + 1 else 5) = Some y"
      using 1(2) c a r d by (simp add: stuck_api_def stuck_page_facts)
    from 1(1) [OF this] c a show False by simp
  qed
qed

lemma erc20_loop_stuck:
  assumes "erc20_loop cap api s = Some y"
  shows "cap = 10000 \<longrightarrow> api = stuck_api \<longrightarrow> st_retry s < 5 \<longrightarrow> False"
proof (rule erc20_loop.raw_induct [where P = "\<lambda>cap api s y.
    cap = 10000 \<longrightarrow> api = stuck_api \<longrightarrow> st_retry s < 5 \<longrightarrow> False", OF _ assms], goal_cases)
  case (1 erc20_loop cap api s y)
  show ?case
  proof (intro impI)
    assume c: "cap = 10000" and a: "api = stuck_api" and r: "st_retry s < 5"
    obtain all' seen' where d: "dedup erc20_key stuck_page (st_all_txs s, st_seen s) = (all', seen')"
      by (cases "dedup erc20_key stuck_page (st_all_txs s, st_seen s)")
    have "erc20_loop cap api
            (s\<lparr>st_requests := st_requests s + 1, st_retry := 0,
               st_all_txs := all', st_seen := seen',
               st_start_block := (if 5 \<noteq> st_start_block s then 5 else 5 + 1),
               st_consecutive_errors := 0\<rparr>) = Some y"
      using 1(2) c a r d by (simp add: stuck_api_def stuck_page_facts)
    from 1(1) [OF this] c a show False by simp
  qed
qed

lemma nft_loop_terminates:
  assumes wb: "\<forall>n s results. api n s = Results results \<and> cap \<le> length results \<longrightarrow>
      (\<exists>b. int_field (blockNumber (last results)) s = Some b \<and> s \<le> b \<and> b \<le> 99999999)"
  shows "\<exists>r. nft_loop cap api n retry all_txs seen_hashes start_block = Some r"
proof (induction "nat (100000000 - start_block) * 4 + (3 - retry)"
    arbitrary: n retry all_txs seen_hashes start_block rule: less_induct)
  case less
  show ?case
  proof (cases "3 \<le> retry")
    case True
    then show ?thesis by (subst nft_loop.simps) simp
  next
    case False
    have again: "\<exists>r. nft_loop cap api (n + 1) (retry + 1) a s start_block = Some r" for a s
      by (rule less.hyps) (use False in simp)
    show ?thesis
    proof (cases "api n start_block")
      case (Results results)
      obtain all' seen' where d: "dedup nft_key results (all_txs, seen_hashes) = (all', seen')"
        by (cases "dedup nft_key results (all_txs, seen_hashes)")
      show ?thesis
      proof (cases "length results < cap")
        case True
        then show ?thesis using False Results d by (subst nft_loop.simps) simp
      next
        case full: False
        then have "cap \<le> length results" by simp
        with wb Results obtain b where b: "int_field (blockNumber (last results)) start_block = Some b"
          "start_block \<le> b" "b \<le> 99999999" by blast
        define s' where "s' = (if b = start_block then b + 1 else b)"
        have "start_block < s'" "s' \<le> 100000000" using b by (auto simp: s'_def)
        then have "nat (100000000 - s') * 4 + (3 - 0) < nat (100000000 - start_block) * 4 + (3 - retry)"
          by linarith
        from less.hyps [OF this] obtain r where "nft_loop cap api (n + 1) 0 all' seen' s' = Some r"
          by blast
        moreover have "nft_loop cap api n retry all_txs seen_hashes start_block =
            nft_loop cap api (n + 1) 0 all' seen' s'"
          using False Results d full b(1) by (subst nft_loop.simps) (simp add: s'_def)
        ultimately show ?thesis by simp
      qed
    next
      case RateLimited
      have "nft_loop cap api n retry all_txs seen_hashes start_block =
          nft_loop cap api (n + 1) (retry + 1) all_txs seen_hashes start_block"
        using False RateLimited by (subst nft_loop.simps) simp
      then show ?thesis using again by simp
    next
      case NoTransactions
      then show ?thesis using False by (subst nft_loop.simps) simp
    next
      case ApiProblem
      then show ?thesis using False by (subst nft_loop.simps) simp
    next
      case Failure
      have "nft_loop cap api n retry all_txs seen_hashes start_block =
          nft_loop cap api (n + 1) (retry + 1) all_txs seen_hashes start_block"
        using False Failure by (subst nft_loop.simps) simp
      then show ?thesis using again by simp
    qed
  qed
qed


lemma erc20_loop_terminates:
  assumes wb: "\<forall>n s results. api n s = Results results \<and> cap \<le> length results \<longrightarrow>
      (\<exists>b. int_field (blockNumber (last results)) s = Some b \<and> s \<le> b \<and> b \<le> 99999999)"
  shows "\<exists>r. erc20_loop cap api s = Some r"
proof (induction "nat (100000000 - st_start_block s) * 24 + (3 - st_consecutive_errors s) * 6
                    + (5 - st_retry s)" arbitrary: s rule: less_induct)
  case less
  show ?case
  proof (cases "5 \<le> st_retry s")
    case True
    show ?thesis
    proof (cases "3 \<le> st_consecutive_errors s + 1")
      case True
      then show ?thesis using \<open>5 \<le> st_retry s\<close> by (subst erc20_loop.simps) simp
    next
      case False
      define s' where "s' = s\<lparr>st_retry := 0, st_start_block := st_start_block s + 10000,
                   st_consecutive_errors := st_consecutive_errors s + 1\<rparr>"
      have "nat (100000000 - st_start_block s') \<le> nat (100000000 - st_start_block s)"
        by (simp add: s'_def)
      then have "nat (100000000 - st_start_block s') * 24 + (3 - st_consecutive_errors s') * 6
                    + (5 - st_retry s')
          < nat (100000000 - st_start_block s) * 24 + (3 - st_consecutive_errors s) * 6
                    + (5 - st_retry s)"
        using False True by (simp add: s'_def)
      from less.hyps [OF this] obtain r where "erc20_loop cap api s' = Some r" by blast
      moreover have "erc20_loop cap api s = erc20_loop cap api s'"
        using False True by (subst erc20_loop.simps) (simp add: s'_def)
      ultimately show ?thesis by simp
    qed
  next
    case False
    have again: "\<exists>r. erc20_loop cap api (s\<lparr>st_requests := st_requests s + 1,
        st_retry := st_retry s + 1\<rparr>) = Some r"
      by (rule less.hyps) (use False in simp)
    show ?thesis
    proof (cases "api (st_requests s) (st_start_block s)")
      case (Results results)
      obtain all' seen' where d: "dedup erc20_key results (st_all_txs s, st_seen s) = (all', seen')"
        by (cases "dedup erc20_key results (st_all_txs s, st_seen s)")
      show ?thesis
      proof (cases "length results < cap")
        case True
        then show ?thesis using False Results d by (subst erc20_loop.simps) simp
      next
        case full: False
        then have "cap \<le> length results" by simp
        with wb Results obtain b where b:
          "int_field (blockNumber (last results)) (st_start_block s) = Some b"
          "st_start_block s \<le> b" "b \<le> 99999999" by blast
        define s' where "s' = s\<lparr>st_requests := st_requests s + 1, st_retry := 0,
                              st_all_txs := all', st_seen := seen',
                              st_start_block := (if b \<noteq> st_start_block s then b else b + 1),
                              st_consecutive_errors := 0\<rparr>"
        have "st_start_block s < st_start_block s'" "st_start_block s' \<le> 100000000"
          using b by (auto simp: s'_def)
        then have "nat (100000000 - st_start_block s') + 1 \<le> nat (100000000 - st_start_block s)"
          by linarith
        then have "nat (100000000 - st_start_block s') * 24 + 24
            \<le> nat (100000000 - st_start_block s) * 24" by linarith
        moreover have "(3 - st_consecutive_errors s') * 6 + (5 - st_retry s') = 23"
          by (simp add: s'_def)
        ultimately have "nat (100000000 - st_start_block s') * 24 + (3 - st_consecutive_errors s') * 6
                    + (5 - st_retry s')
          < nat (100000000 - st_start_block s) * 24 + (3 - st_consecutive_errors s) * 6
                    + (5 - st_retry s)"
          by linarith
        from less.hyps [OF this] obtain r where "erc20_loop cap api s' = Some r" by blast
        moreover have "erc20_loop cap api s = erc20_loop cap api s'"
          using False Results d full b(1) by (subst erc20_loop.simps) (simp add: s'_def)
        ultimately show ?thesis by simp
      qed
    next
      case RateLimited
      have "erc20_loop cap api s = erc20_loop cap api (s\<lparr>st_requests := st_requests s + 1,
        st_retry := st_retry s + 1\<rparr>)"
        using False RateLimited by (subst erc20_loop.simps) simp
      then show ?thesis using again by simp
    next
      case NoTransactions
      then show ?thesis using False by (subst erc20_loop.simps) simp
    next
      case ApiProblem
      show ?thesis
      proof (cases "3 \<le> st_consecutive_errors s + 1")
        case True
        then show ?thesis using False ApiProblem by (subst erc20_loop.simps) simp
      next
        case few: False
        define s' where "s' = s\<lparr>st_requests := st_requests s + 1, st_retry := st_retry s + 1,
                    st_consecutive_errors := st_consecutive_errors s + 1\<rparr>"
        have "nat (100000000 - st_start_block s') * 24 + (3 - st_consecutive_errors s') * 6
                    + (5 - st_retry s')
          < nat (100000000 - st_start_block s) * 24 + (3 - st_consecutive_errors s) * 6
                    + (5 - st_retry s)"
          using False few by (simp add: s'_def)
        from less.hyps [OF this] obtain r where "erc20_loop cap api s' = Some r" by blast
        moreover have "erc20_loop cap api s = erc20_loop cap api s'"
          using False few ApiProblem by (subst erc20_loop.simps) (simp add: s'_def)
        ultimately show ?thesis by simp
      qed
    next
      case Failure
      have "erc20_loop cap api s = erc20_loop cap api (s\<lparr>st_requests := st_requests s + 1,
        st_retry := st_retry s + 1\<rparr>)"
        using False Failure by (subst erc20_loop.simps) simp
      then show ?thesis using again by simp
    qed
  qed
qed


lemma nft_forced_advance:
  assumes "retry < 3" and "api n start_block = Results results" and "cap \<le> length results"
    and "int_field (blockNumber (last results)) start_block = Some start_block"
  shows "nft_loop cap api n retry all_txs seen_hashes start_block =
         nft_loop cap api (n + 1) 0 (fst (dedup nft_key results (all_txs, seen_hashes)))
           (snd (dedup nft_key results (all_txs, seen_hashes))) (start_block + 1)"
  using assms by (subst nft_loop.simps) (simp split: prod.splits)

subsection \<open>C5\<close>

text \<open>
  C5, as stated: no sequence of API responses makes the block-range loop run forever.
  The source that always sends the same full page of block 5 does: the start block goes
  0, 5, 6 (forced advance), 5, 6, ... and neither fetcher ever returns.
\<close>

theorem C5_counterexample:
  "fetch_all_nft_transfers ''KEY'' stuck_api = None
   \<and> fetch_erc20_transfers ''KEY'' stuck_api = None"
proof -
  have "nft_loop 10000 stuck_api 0 0 [] {} 0 = None"
  proof (cases "nft_loop 10000 stuck_api 0 0 [] {} 0")
    case None
    then show ?thesis .
  next
    case (Some y)
    from nft_loop_stuck [OF Some] show ?thesis by simp
  qed
  moreover have "erc20_loop 10000 stuck_api \<lparr>st_requests = 0, st_retry = 0, st_all_txs = [],
      st_seen = {}, st_start_block = 0, st_consecutive_errors = 0\<rparr> = None"
  proof (cases "erc20_loop 10000 stuck_api \<lparr>st_requests = 0, st_retry = 0, st_all_txs = [],
      st_seen = {}, st_start_block = 0, st_consecutive_errors = 0\<rparr>")
    case None
    then show ?thesis .
  next
    case (Some y)
    from erc20_loop_stuck [OF Some] show ?thesis by simp
  qed
  ultimately show ?thesis
    by (simp add: fetch_all_nft_transfers_def fetch_erc20_transfers_def)
qed


text \<open>
  C5, amended: if the last item of every full page carries a block number that is at
  least the requested start block and at most the end block 99999999, both block-range
  loops return from every state: the start block then grows with every full page, by
  the forced advance of one block when the last block equals the start block, and the
  retries between two pages are bounded.
\<close>

theorem C5_termination:
  assumes wb: "\<forall>n s results. api n s = Results results \<and> cap \<le> length results \<longrightarrow>
      (\<exists>b. int_field (blockNumber (last results)) s = Some b \<and> s \<le> b \<and> b \<le> 99999999)"
  shows "(\<exists>r. nft_loop cap api n retry all_txs seen_hashes start_block = Some r)
     \<and> (\<exists>r. erc20_loop cap api s = Some r)
     \<and> (cap = 10000 \<longrightarrow> (\<exists>r. fetch_all_nft_transfers API_KEY api = Some r)
                          \<and> (\<exists>r. fetch_erc20_transfers api_key api = Some r))
     \<and> (retry < 3 \<and> api n start_block = Results results \<and> cap \<le> length results
          \<and> int_field (blockNumber (last results)) start_block = Some start_block \<longrightarrow>
         nft_loop cap api n retry all_txs seen_hashes start_block =
         nft_loop cap api (n + 1) 0 (fst (dedup nft_key results (all_txs, seen_hashes)))
           (snd (dedup nft_key results (all_txs, seen_hashes))) (start_block + 1))"
proof -
  have a: "\<exists>r. nft_loop cap api n retry all_txs seen_hashes start_block = Some r"
    for n retry all_txs seen_hashes start_block
    using wb by (rule nft_loop_terminates)
  have b: "\<exists>r. erc20_loop cap api s = Some r" for s
    using wb by (rule erc20_loop_terminates)
  have c: "cap = 10000 \<longrightarrow> (\<exists>r. fetch_all_nft_transfers API_KEY api = Some r)
                          \<and> (\<exists>r. fetch_erc20_transfers api_key api = Some r)"
  proof
    assume cap: "cap = 10000"
    have "\<exists>r. fetch_all_nft_transfers API_KEY api = Some r"
      using a [of 0 0 "[]" "{}" 0] cap by (simp add: fetch_all_nft_transfers_def)
    moreover have "\<exists>r. fetch_erc20_transfers api_key api = Some r"
      using b [of "\<lparr>st_requests = 0, st_retry = 0, st_all_txs = [], st_seen = {},
              st_start_block = 0, st_consecutive_errors = 0\<rparr>"] cap
      by (simp add: fetch_erc20_transfers_def)
    ultimately show "(\<exists>r. fetch_all_nft_transfers API_KEY api = Some r)
                          \<and> (\<exists>r. fetch_erc20_transfers api_key api = Some r)" by simp
  qed
  have d: "retry < 3 \<and> api n start_block = Results results \<and> cap \<le> length results
          \<and> int_field (blockNumber (last results)) start_block = Some start_block \<longrightarrow>
         nft_loop cap api n retry all_txs seen_hashes start_block =
         nft_loop cap api (n + 1) 0 (fst (dedup nft_key results (all_txs, seen_hashes)))
           (snd (dedup nft_key results (all_txs, seen_hashes))) (start_block + 1)"
    using nft_forced_advance by blast
  show ?thesis using a b c d by (intro conjI)
qed

theorem C5_termination_witness:
  "(\<exists>r. nft_loop 4 overlap_api 0 0 [] {} 0 = Some r)
   \<and> (\<exists>r. erc20_loop 4 overlap_api \<lparr>st_requests = 0, st_retry = 0, st_all_txs = [],
               st_seen = {}, st_start_block = 0, st_consecutive_errors = 0\<rparr> = Some r)"
proof -
  have wb: "\<forall>n s results. overlap_api n s = Results results \<and> 4 \<le> length results \<longrightarrow>
      (\<exists>b. int_field (blockNumber (last results)) s = Some b \<and> s \<le> b \<and> b \<le> 99999999)"
  proof (intro allI impI)
    fix n :: nat and s :: int and results
    assume a: "overlap_api n s = Results results \<and> 4 \<le> length results"
    have l2: "length overlap_page2 < 4" by (simp add: overlap_page2_def)
    have "s = 0 \<and> results = overlap_page1"
      using a l2 by (auto simp: overlap_api_def split: if_splits)
    moreover have "int_field (blockNumber (last overlap_page1)) 0 = Some 2"
      by (simp add: overlap_page1_def transfer_item_def int_field_def py_int_def dec_body_def strip_def py_space_def
          dec_digit_def)
    ultimately show "\<exists>b. int_field (blockNumber (last results)) s = Some b \<and> s \<le> b \<and> b \<le> 99999999"
      by simp
  qed
  note t = C5_termination [OF wb, of 0 0 "[]" "{}" 0 "\<lparr>st_requests = 0, st_retry = 0, st_all_txs = [],
               st_seen = {}, st_start_block = 0, st_consecutive_errors = 0\<rparr>"]
  show ?thesis using t [THEN conjunct1] t [THEN conjunct2, THEN conjunct1] by (intro conjI)
qed

subsection \<open>Helper lemmas on the flushes\<close>

lemma foldl_write_other:
  "path \<noteq> target \<Longrightarrow> foldl fs_step fs (map (WriteChunk path) chunks) target = fs target"
  by (induction chunks arbitrary: fs) (auto split: option.splits)

lemma foldl_write_same:
  "fs path = Some old \<Longrightarrow>
     foldl fs_step fs (map (WriteChunk path) chunks) path = Some (old @ concat chunks)"
  by (induction chunks arbitrary: fs old) auto

lemma save_cache_atomic:
  "crash_after k (save_cache CACHE_FILE chunks) fs CACHE_FILE =
     (if k < length chunks + 2 then fs CACHE_FILE else Some (concat chunks))"
proof -
  define tmp where "tmp = CACHE_FILE @ ''.tmp''"
  have ne: "tmp \<noteq> CACHE_FILE" by (simp add: tmp_def)
  have ops: "save_cache CACHE_FILE chunks =
      OpenTruncate tmp # map (WriteChunk tmp) chunks @ [Replace tmp CACHE_FILE]"
    by (simp add: save_cache_def tmp_def Let_def)
  show ?thesis
  proof (cases k)
    case 0
    then show ?thesis by (simp add: crash_after_def)
  next
    case (Suc j)
    show ?thesis
    proof (cases "j \<le> length chunks")
      case True
      have "take k (save_cache CACHE_FILE chunks) =
          OpenTruncate tmp # map (WriteChunk tmp) (take j chunks)"
        using True by (simp add: ops Suc take_map)
      then show ?thesis
        using True ne by (simp add: crash_after_def Suc foldl_write_other)
    next
      case False
      then have "take k (save_cache CACHE_FILE chunks) = save_cache CACHE_FILE chunks"
        by (simp add: ops Suc)
      moreover have "foldl fs_step (fs(tmp \<mapsto> [])) (map (WriteChunk tmp) chunks) tmp =
          Some ([] @ concat chunks)"
        by (rule foldl_write_same) simp
      ultimately show ?thesis
        using False ne ne [symmetric] by (simp add: crash_after_def ops Suc)
    qed
  qed
qed

subsection \<open>C6\<close>

text \<open>
  C6: every flush of the cache file writes a temporary file and renames it, so that a
  crash during a flush leaves the previous cache file intact. \<^verbatim>\<open>save_cache\<close> of
  update\_data.py does (lemma \<open>save_cache_atomic\<close>: after any number of steps the cache file
  holds the previous text or the whole new text). The flush of fetch\_early\_exits.py
  does not: it opens the cache file itself for writing. On a cache file of one entry, a
  crash after the first step of that flush leaves the file empty, a crash after the
  second step leaves the first chunk of the new text, and the previous text is gone;
  \<^verbatim>\<open>save_cache\<close> at the same points leaves the previous text.
\<close>

theorem C6_early_exits_flush_truncates:
  "crash_after 1 (early_exits_flush ''early_exits_cache.json'' new_cache_chunks) disk_before
       ''early_exits_cache.json'' = Some []
   \<and> crash_after 2 (early_exits_flush ''early_exits_cache.json'' new_cache_chunks) disk_before
       ''early_exits_cache.json'' = Some (hd new_cache_chunks)
   \<and> disk_before ''early_exits_cache.json'' = Some old_cache_text
   \<and> old_cache_text \<noteq> [] \<and> old_cache_text \<noteq> hd new_cache_chunks
   \<and> crash_after 1 (save_cache ''early_exits_cache.json'' new_cache_chunks) disk_before
       ''early_exits_cache.json'' = Some old_cache_text
   \<and> crash_after 2 (save_cache ''early_exits_cache.json'' new_cache_chunks) disk_before
       ''early_exits_cache.json'' = Some old_cache_text"
  by (simp add: crash_after_def early_exits_flush_def save_cache_def disk_before_def
      new_cache_chunks_def old_cache_text_def Let_def eval_nat_numeral)

subsection \<open>Helper lemmas on the run of fetch\_early\_exits.py\<close>

lemma resolve_loop_error:
  "first_error resolver needed = Some e \<Longrightarrow> resolve_loop resolver needed acc = Inl e"
proof (induction needed arbitrary: acc)
  case Nil
  then show ?case by simp
next
  case (Cons h hs)
  obtain c n k where acc: "acc = (c, n, k)" by (cases acc) auto
  show ?case
  proof (cases "resolver h")
    case (Inl e')
    then show ?thesis using Cons.prems by (simp add: acc)
  next
    case (Inr r)
    then have "first_error resolver hs = Some e" using Cons.prems by simp
    then show ?thesis using Inr Cons.IH by (cases r) (simp_all add: acc)
  qed
qed

lemma resolve_loop_ok:
  "first_error resolver needed = None \<Longrightarrow>
     \<exists>errors. resolve_loop resolver needed (cache, n, calls) =
        Inr (resolved resolver needed cache, errors, calls @ needed)"
proof (induction needed arbitrary: cache n calls)
  case Nil
  show ?case by (simp add: resolved_def)
next
  case (Cons h hs)
  show ?case
  proof (cases "resolver h")
    case (Inl e')
    then show ?thesis using Cons.prems by simp
  next
    case (Inr r)
    then have fe: "first_error resolver hs = None" using Cons.prems by simp
    show ?thesis
    proof (cases r)
      case None
      obtain errors where "resolve_loop resolver hs (cache, n + 1, calls @ [h]) =
          Inr (resolved resolver hs cache, errors, (calls @ [h]) @ hs)"
        using Cons.IH [OF fe] by blast
      moreover have "resolved resolver (h # hs) cache = resolved resolver hs cache"
        using Inr None by (auto simp: resolved_def fun_eq_iff)
      ultimately show ?thesis using Inr None by simp
    next
      case (Some p)
      obtain errors where "resolve_loop resolver hs (cache(h \<mapsto> p), n, calls @ [h]) =
          Inr (resolved resolver hs (cache(h \<mapsto> p)), errors, (calls @ [h]) @ hs)"
        using Cons.IH [OF fe] by blast
      moreover have "resolved resolver (h # hs) cache = resolved resolver hs (cache(h \<mapsto> p))"
        using Inr Some by (auto simp: resolved_def fun_eq_iff split: sum.splits option.splits)
      ultimately show ?thesis using Inr Some by simp
    qed
  qed
qed

lemma first_error_filter:
  "(\<And>h. h \<in> set hs \<Longrightarrow> \<not> P h \<Longrightarrow> \<exists>r. resolver h = Inr r) \<Longrightarrow>
     first_error resolver (filter P hs) = first_error resolver hs"
proof (induction hs)
  case Nil
  show ?case by simp
next
  case (Cons h hs)
  have IH: "first_error resolver (filter P hs) = first_error resolver hs"
    using Cons.prems by (intro Cons.IH) auto
  show ?case
  proof (cases "P h")
    case True
    then show ?thesis using IH by (simp split: sum.splits)
  next
    case False
    then obtain r where "resolver h = Inr r" using Cons.prems [of h] by auto
    then show ?thesis using False IH by simp
  qed
qed

lemma stats_loop_cong:
  "(\<And>ev. ev \<in> set events \<Longrightarrow> c1 (ev_tx_hash ev) = c2 (ev_tx_hash ev)) \<Longrightarrow>
     stats_loop c1 events acc = stats_loop c2 events acc"
proof (induction events arbitrary: acc)
  case Nil
  show ?case by simp
next
  case (Cons ev events)
  obtain a b c d e f where acc: "acc = (a, b, c, d, e, f)" by (cases acc) auto
  have h: "c1 (ev_tx_hash ev) = c2 (ev_tx_hash ev)" using Cons.prems by simp
  have IH: "\<And>acc. stats_loop c1 events acc = stats_loop c2 events acc"
    using Cons.prems by (intro Cons.IH) auto
  show ?case unfolding acc by (simp add: h IH split: option.splits sum.splits)
qed

lemma compute_stats_cong:
  "(\<And>ev. ev \<in> set events \<Longrightarrow> c1 (ev_tx_hash ev) = c2 (ev_tx_hash ev)) \<Longrightarrow>
     compute_stats c1 events = compute_stats c2 events"
  by (simp add: compute_stats_def stats_loop_cong [of events c1 c2])


lemma early_exits_needed:
  "map ev_tx_hash (filter (\<lambda>ev. cache (ev_tx_hash ev) = None) events) =
     filter (\<lambda>h. cache h = None) (map ev_tx_hash events)"
  by (simp add: filter_map comp_def)

lemma early_exits_calls:
  assumes "early_exits_main cache events resolver = Inr (out, c, calls)"
  shows "calls = filter (\<lambda>h. cache h = None) (map ev_tx_hash events)"
proof -
  let ?needed = "map ev_tx_hash (filter (\<lambda>ev. cache (ev_tx_hash ev) = None) events)"
  have ne: "events \<noteq> []" using assms by (auto simp: early_exits_main_def)
  show ?thesis
  proof (cases "first_error resolver ?needed")
    case (Some e)
    then have "resolve_loop resolver ?needed (cache, 0, []) = Inl e" by (rule resolve_loop_error)
    then show ?thesis using assms ne by (simp add: early_exits_main_def)
  next
    case None
    then obtain errors where "resolve_loop resolver ?needed (cache, 0, []) =
        Inr (resolved resolver ?needed cache, errors, [] @ ?needed)"
      using resolve_loop_ok by blast
    then show ?thesis
      using assms ne by (auto simp: early_exits_main_def early_exits_needed split: sum.splits)
  qed
qed

lemma early_exits_resumable:
  assumes agree: "\<forall>h p. cache h = Some p \<longrightarrow> resolver h = Inr (Some p)"
  shows "map_sum id fst (early_exits_main cache events resolver) =
         map_sum id fst (early_exits_main Map.empty events resolver)"
proof (cases "events = []")
  case True
  then show ?thesis by (simp add: early_exits_main_def)
next
  case ne: False
  define hashes where "hashes = map ev_tx_hash events"
  define warm where "warm = filter (\<lambda>h. cache h = None) hashes"
  have w: "map ev_tx_hash (filter (\<lambda>ev. cache (ev_tx_hash ev) = None) events) = warm"
    by (simp add: warm_def hashes_def early_exits_needed)
  have mw: "early_exits_main cache events resolver =
      (case resolve_loop resolver warm (cache, 0, []) of
         Inl e \<Rightarrow> Inl e
       | Inr (cache', errors, calls) \<Rightarrow>
           (case compute_stats cache' events of
              Inl e \<Rightarrow> Inl e
            | Inr out \<Rightarrow> Inr (out, cache', calls)))"
    using ne by (simp add: early_exits_main_def w)
  have mc: "early_exits_main Map.empty events resolver =
      (case resolve_loop resolver hashes (Map.empty, 0, []) of
         Inl e \<Rightarrow> Inl e
       | Inr (cache', errors, calls) \<Rightarrow>
           (case compute_stats cache' events of
              Inl e \<Rightarrow> Inl e
            | Inr out \<Rightarrow> Inr (out, cache', calls)))"
    using ne by (simp add: early_exits_main_def hashes_def)
  have fe: "first_error resolver warm = first_error resolver hashes"
    unfolding warm_def
  proof (rule first_error_filter)
    fix h assume "h \<in> set hashes" and "\<not> cache h = None"
    then obtain p where "cache h = Some p" by auto
    with agree show "\<exists>r. resolver h = Inr r" by auto
  qed
  show ?thesis
  proof (cases "first_error resolver hashes")
    case (Some e)
    have "resolve_loop resolver warm (cache, 0, []) = Inl e"
      using Some fe by (intro resolve_loop_error) simp
    moreover have "resolve_loop resolver hashes (Map.empty, 0, []) = Inl e"
      using Some by (rule resolve_loop_error)
    ultimately show ?thesis by (simp add: mw mc)
  next
    case None
    obtain e1 where r1: "resolve_loop resolver warm (cache, 0, []) =
        Inr (resolved resolver warm cache, e1, [] @ warm)"
      using resolve_loop_ok [of resolver warm] None fe by metis
    obtain e2 where r2: "resolve_loop resolver hashes (Map.empty, 0, []) =
        Inr (resolved resolver hashes Map.empty, e2, [] @ hashes)"
      using resolve_loop_ok [OF None] by blast
    have "compute_stats (resolved resolver warm cache) events =
          compute_stats (resolved resolver hashes Map.empty) events"
    proof (rule compute_stats_cong)
      fix ev assume "ev \<in> set events"
      then have hin: "ev_tx_hash ev \<in> set hashes" by (simp add: hashes_def)
      show "resolved resolver warm cache (ev_tx_hash ev) =
            resolved resolver hashes Map.empty (ev_tx_hash ev)"
      proof (cases "cache (ev_tx_hash ev)")
        case None
        then have "ev_tx_hash ev \<in> set warm" using hin by (simp add: warm_def)
        then show ?thesis using hin None
          by (simp add: resolved_def split: sum.splits option.splits)
      next
        case (Some p)
        then have "ev_tx_hash ev \<notin> set warm" by (simp add: warm_def)
        moreover have "resolver (ev_tx_hash ev) = Inr (Some p)" using agree Some by simp
        ultimately show ?thesis using hin Some by (simp add: resolved_def)
      qed
    qed
    then show ?thesis using r1 r2 by (simp add: mw mc split: sum.splits)
  qed
qed

subsection \<open>Helper lemmas on fetch\_locked\_dolo and the merge\<close>

lemma py_index_mem: "py_index xs i = Some x \<Longrightarrow> x \<in> set xs"
  by (auto simp: py_index_def Let_def split: if_splits)

lemma store_results_dom:
  "dom (fst (store_results c rs out)) \<subseteq> dom out \<union> set c"
proof (induction rs arbitrary: out)
  case Nil
  show ?case by simp
next
  case (Cons r rs)
  obtain idx res where r: "r = (idx, res)" by (cases r)
  show ?case
  proof (cases "py_index c idx")
    case None
    then show ?thesis by (simp add: r)
  next
    case (Some tid)
    then have tid: "tid \<in> set c" by (rule py_index_mem)
    show ?thesis
    proof (cases "decode_locked res")
      case (Inl e)
      then show ?thesis using Some by (simp add: r)
    next
      case (Inr l)
      have "dom (fst (store_results c rs (out(tid \<mapsto> l)))) \<subseteq> dom (out(tid \<mapsto> l)) \<union> set c"
        by (rule Cons.IH)
      then show ?thesis using Some Inr tid by (auto simp: r)
    qed
  qed
qed

lemma batch_attempts_dom:
  "dom (batch_attempts post c retries out) \<subseteq> dom out \<union> set c"
proof (induction retries arbitrary: out)
  case Nil
  show ?case by (auto split: if_splits)
next
  case (Cons retry rest)
  show ?case
  proof (cases "post retry")
    case Http429
    then show ?thesis using Cons.IH [of out] by simp
  next
    case RpcFailure
    then show ?thesis using Cons.IH [of out] by simp
  next
    case (RpcResults results)
    obtain out' ok where s: "store_results c results out = (out', ok)"
      by (cases "store_results c results out")
    have d: "dom out' \<subseteq> dom out \<union> set c"
      using store_results_dom [of c results out] s by simp
    show ?thesis
    proof (cases ok)
      case True
      then show ?thesis using RpcResults s d by simp
    next
      case False
      have "dom (batch_attempts post c rest out') \<subseteq> dom out' \<union> set c" by (rule Cons.IH)
      then show ?thesis using RpcResults s d False by auto
    qed
  qed
qed

lemma make_batch_call_dom: "make_batch_call post c tid = Some l \<Longrightarrow> tid \<in> set c"
  using batch_attempts_dom [of post c "[0..<3]" Map.empty]
  by (auto simp: make_batch_call_def)

lemma chunks_of_subset: "c \<in> set (chunks_of n xs) \<Longrightarrow> set c \<subseteq> set xs"
proof (induction n xs rule: chunks_of.induct)
  case (1 n xs)
  show ?case
  proof (cases "n = 0 \<or> xs = []")
    case True
    then show ?thesis using 1(2) by (subst (asm) chunks_of.simps) simp
  next
    case False
    then have "c = take n xs \<or> c \<in> set (chunks_of n (drop n xs))"
      using 1(2) by (subst (asm) chunks_of.simps) auto
    then show ?thesis
    proof
      assume "c = take n xs"
      then show ?thesis by (auto dest: in_set_takeD)
    next
      assume "c \<in> set (chunks_of n (drop n xs))"
      then have "set c \<subseteq> set (drop n xs)" using 1(1) False by simp
      then show ?thesis by (auto dest: in_set_dropD)
    qed
  qed
qed

lemma chunks_of_covers:
  "0 < n \<Longrightarrow> x \<in> set xs \<Longrightarrow> \<exists>c \<in> set (chunks_of n xs). x \<in> set c"
proof (induction n xs rule: chunks_of.induct)
  case (1 n xs)
  have ne: "\<not> (n = 0 \<or> xs = [])" using 1(2,3) by auto
  have split: "x \<in> set (take n xs) \<or> x \<in> set (drop n xs)"
    using 1(3) by (metis Un_iff append_take_drop_id set_append)
  have cs: "chunks_of n xs = take n xs # chunks_of n (drop n xs)"
    using ne by (subst chunks_of.simps) simp
  from split show ?case
  proof
    assume "x \<in> set (take n xs)"
    then show ?thesis by (simp add: cs)
  next
    assume "x \<in> set (drop n xs)"
    then have "\<exists>c \<in> set (chunks_of n (drop n xs)). x \<in> set c"
      using 1(1) [OF ne 1(2)] by simp
    then show ?thesis by (auto simp: cs)
  qed
qed


lemma merge_chunks:
  assumes dom: "\<And>c tid l. f c tid = Some l \<Longrightarrow> tid \<in> set c"
  shows "(\<forall>c \<in> set chunks. \<forall>tid \<in> set c. f c tid = resolve tid) \<Longrightarrow>
     foldl (\<lambda>cache c. cache ++ f c) cache chunks tid =
       (if (\<exists>c \<in> set chunks. tid \<in> set c) \<and> resolve tid \<noteq> None then resolve tid
        else cache tid)"
proof (induction chunks rule: rev_induct)
  case Nil
  show ?case by simp
next
  case (snoc c chunks)
  have IH: "foldl (\<lambda>cache c. cache ++ f c) cache chunks tid =
       (if (\<exists>c \<in> set chunks. tid \<in> set c) \<and> resolve tid \<noteq> None then resolve tid
        else cache tid)"
    using snoc.prems by (intro snoc.IH) simp
  have fc: "\<And>t. t \<in> set c \<Longrightarrow> f c t = resolve t" using snoc.prems by simp
  show ?case
  proof (cases "f c tid")
    case (Some l)
    then have "tid \<in> set c" by (rule dom)
    then have "resolve tid = Some l" using fc Some by simp
    then show ?thesis using Some \<open>tid \<in> set c\<close> by (simp add: map_add_def)
  next
    case None
    show ?thesis
    proof (cases "tid \<in> set c")
      case True
      then have "resolve tid = None" using fc None by simp
      then show ?thesis using None IH by (simp add: map_add_def)
    next
      case False
      then show ?thesis using None IH by (simp add: map_add_def)
    qed
  qed
qed

lemma fetch_locked_dolo_value:
  assumes hyp: "\<forall>c \<in> set (snd (fetch_locked_dolo cache rpc ids)). \<forall>tid \<in> set c.
            make_batch_call (rpc c) c tid = resolve tid"
    and tid: "tid \<in> set ids"
  shows "fst (fetch_locked_dolo cache rpc ids) tid =
           (if cache tid = None then resolve tid else cache tid)"
proof -
  define missing where "missing = filter (\<lambda>tid. cache tid = None) ids"
  define chunks where "chunks = chunks_of BATCH_SIZE missing"
  have f: "fst (fetch_locked_dolo cache rpc ids) =
      foldl (\<lambda>cache c. cache ++ make_batch_call (rpc c) c) cache chunks"
    and s: "snd (fetch_locked_dolo cache rpc ids) = chunks"
    by (simp_all add: fetch_locked_dolo_def Let_def missing_def chunks_def)
  have h: "\<forall>c \<in> set chunks. \<forall>tid \<in> set c. make_batch_call (rpc c) c tid = resolve tid"
    using hyp by (simp add: s)
  have m: "foldl (\<lambda>cache c. cache ++ make_batch_call (rpc c) c) cache chunks tid =
       (if (\<exists>c \<in> set chunks. tid \<in> set c) \<and> resolve tid \<noteq> None then resolve tid
        else cache tid)"
    by (rule merge_chunks [where f = "\<lambda>c. make_batch_call (rpc c) c", OF make_batch_call_dom h])
  show ?thesis
  proof (cases "cache tid")
    case None
    then have "tid \<in> set missing" using tid by (simp add: missing_def)
    then have "\<exists>c \<in> set chunks. tid \<in> set c"
      unfolding chunks_def by (intro chunks_of_covers) (simp_all add: BATCH_SIZE_def)
    then show ?thesis using m None by (auto simp: f)
  next
    case (Some l)
    have "\<not> (\<exists>c \<in> set chunks. tid \<in> set c)"
    proof
      assume "\<exists>c \<in> set chunks. tid \<in> set c"
      then obtain c where "c \<in> set chunks" "tid \<in> set c" by blast
      then have "tid \<in> set missing" unfolding chunks_def using chunks_of_subset by blast
      then show False using Some by (simp add: missing_def)
    qed
    then show ?thesis using m Some by (simp add: f)
  qed
qed

lemma fetch_locked_dolo_calls:
  assumes "c \<in> set (snd (fetch_locked_dolo cache rpc ids))" and "tid \<in> set c"
  shows "cache tid = None \<and> tid \<in> set ids"
proof -
  have "c \<in> set (chunks_of BATCH_SIZE (filter (\<lambda>tid. cache tid = None) ids))"
    using assms(1) by (simp add: fetch_locked_dolo_def Let_def)
  then have "set c \<subseteq> set (filter (\<lambda>tid. cache tid = None) ids)" by (rule chunks_of_subset)
  then show ?thesis using assms(2) by auto
qed

lemma token_loop_cong:
  "(\<And>tid. tid \<in> set tids \<Longrightarrow> c1 tid = c2 tid) \<Longrightarrow>
     token_loop c1 vw tids acc = token_loop c2 vw tids acc"
proof (induction tids arbitrary: acc)
  case Nil
  show ?case by simp
next
  case (Cons tid tids)
  obtain a b c d e where acc: "acc = (a, b, c, d, e)" by (cases acc) auto
  have h: "c1 tid = c2 tid" using Cons.prems by simp
  have IH: "\<And>acc. token_loop c1 vw tids acc = token_loop c2 vw tids acc"
    using Cons.prems by (intro Cons.IH) simp
  show ?case unfolding acc by (simp add: h IH Let_def split: sum.splits)
qed

lemma holders_loop_cong:
  "(\<And>h tid. h \<in> set hs \<Longrightarrow> tid \<in> set (token_ids h) \<Longrightarrow> c1 tid = c2 tid) \<Longrightarrow>
     holders_loop c1 vw hs acc = holders_loop c2 vw hs acc"
proof (induction hs arbitrary: acc)
  case Nil
  show ?case by simp
next
  case (Cons h hs)
  obtain a b c where acc: "acc = (a, b, c)" by (cases acc) auto
  have t: "token_loop c1 vw (token_ids h) (PyInt 0, PyInt 0, [], None, 0) =
           token_loop c2 vw (token_ids h) (PyInt 0, PyInt 0, [], None, 0)"
    using Cons.prems by (intro token_loop_cong) auto
  have IH: "\<And>acc. holders_loop c1 vw hs acc = holders_loop c2 vw hs acc"
    using Cons.prems by (intro Cons.IH) auto
  show ?case unfolding acc by (simp add: t IH split: prod.splits sum.splits)
qed

lemma merge_holders_cong:
  "(\<And>h tid. h \<in> set hs \<Longrightarrow> tid \<in> set (token_ids h) \<Longrightarrow> c1 tid = c2 tid) \<Longrightarrow>
     merge_holders c1 vw hs = merge_holders c2 vw hs"
  by (simp add: merge_holders_def holders_loop_cong [of hs c1 c2])

subsection \<open>The warm and the cold run of the example\<close>

lemma warm_chunks: "snd (fetch_locked_dolo warm_locked_cache sample_rpc [1, 2, 3]) = [[2, 3]]"
  by (simp add: fetch_locked_dolo_def Let_def warm_locked_cache_def BATCH_SIZE_def
      chunks_of.simps)

lemma cold_chunks: "snd (fetch_locked_dolo Map.empty sample_rpc [1, 2, 3]) = [[1, 2, 3]]"
  by (simp add: fetch_locked_dolo_def Let_def BATCH_SIZE_def chunks_of.simps)

lemma warm_batch:
  "\<forall>tid \<in> set [2, 3]. make_batch_call (sample_rpc [2, 3]) [2, 3] tid = sample_resolve tid"
  by (simp add: make_batch_call_def sample_rpc_def upt_rec py_index_def decode_raw_negative
      decode_locked_None sample_resolve_def zero_locked_def)

lemma cold_batch:
  "\<forall>tid \<in> set [1, 2, 3]. make_batch_call (sample_rpc [1, 2, 3]) [1, 2, 3] tid = sample_resolve tid"
  by (simp add: make_batch_call_def sample_rpc_def upt_rec py_index_def decode_raw_negative
      decode_locked_None sample_resolve_def zero_locked_def)


subsection \<open>C1\<close>

text \<open>
  C1: let the cache hold, for some items, the record the resolver returns for them, and
  let the resolver return the same record for an item in both runs. In
  fetch\_early\_exits.py the resolver is then called exactly for the hashes of the events
  that are not in the cache, and the run ends as the cold run from the empty cache does:
  with the same statistics and list of early exits, or with the same exception. In
  update\_data.py \<^verbatim>\<open>make_batch_call\<close> is called only with token ids that are not in the
  cache, the cache returned agrees with that of the cold run on every token id asked
  for, and the merge of \<^verbatim>\<open>main\<close> over holders of these tokens gives the same holders
  and totals.
\<close>

theorem C1_resumable:
  assumes agree_exits: "\<forall>h p. pcache h = Some p \<longrightarrow> resolver h = Inr (Some p)"
    and agree_locked: "\<forall>tid l. lcache tid = Some l \<longrightarrow> resolve tid = Some l"
    and warm_rpc: "\<forall>c \<in> set (snd (fetch_locked_dolo lcache rpc ids)). \<forall>tid \<in> set c.
            make_batch_call (rpc c) c tid = resolve tid"
    and cold_rpc: "\<forall>c \<in> set (snd (fetch_locked_dolo Map.empty rpc ids)). \<forall>tid \<in> set c.
            make_batch_call (rpc c) c tid = resolve tid"
    and held: "\<forall>h \<in> set holders. set (token_ids h) \<subseteq> set ids"
  shows "(\<forall>out c calls. early_exits_main pcache events resolver = Inr (out, c, calls) \<longrightarrow>
            calls = filter (\<lambda>h. pcache h = None) (map ev_tx_hash events))
     \<and> map_sum id fst (early_exits_main pcache events resolver) =
         map_sum id fst (early_exits_main Map.empty events resolver)
     \<and> (\<forall>c \<in> set (snd (fetch_locked_dolo lcache rpc ids)). \<forall>tid \<in> set c.
            lcache tid = None \<and> tid \<in> set ids)
     \<and> (\<forall>tid \<in> set ids. fst (fetch_locked_dolo lcache rpc ids) tid =
                           fst (fetch_locked_dolo Map.empty rpc ids) tid)
     \<and> merge_holders (fst (fetch_locked_dolo lcache rpc ids)) vote_weights holders =
         merge_holders (fst (fetch_locked_dolo Map.empty rpc ids)) vote_weights holders"
proof -
  have a: "\<forall>out c calls. early_exits_main pcache events resolver = Inr (out, c, calls) \<longrightarrow>
            calls = filter (\<lambda>h. pcache h = None) (map ev_tx_hash events)"
    using early_exits_calls by blast
  have b: "map_sum id fst (early_exits_main pcache events resolver) =
         map_sum id fst (early_exits_main Map.empty events resolver)"
    using agree_exits by (rule early_exits_resumable)
  have c: "\<forall>c \<in> set (snd (fetch_locked_dolo lcache rpc ids)). \<forall>tid \<in> set c.
            lcache tid = None \<and> tid \<in> set ids"
    using fetch_locked_dolo_calls by blast
  have same: "fst (fetch_locked_dolo lcache rpc ids) tid =
              fst (fetch_locked_dolo Map.empty rpc ids) tid" if tid: "tid \<in> set ids" for tid
  proof -
    have w: "fst (fetch_locked_dolo lcache rpc ids) tid =
        (if lcache tid = None then resolve tid else lcache tid)"
      using warm_rpc tid by (rule fetch_locked_dolo_value)
    have k: "fst (fetch_locked_dolo Map.empty rpc ids) tid = resolve tid"
      using fetch_locked_dolo_value [OF cold_rpc tid] by simp
    show ?thesis
    proof (cases "lcache tid")
      case None
      then show ?thesis using w k by simp
    next
      case (Some l)
      then have "resolve tid = Some l" using agree_locked by simp
      then show ?thesis using w k Some by simp
    qed
  qed
  have d: "\<forall>tid \<in> set ids. fst (fetch_locked_dolo lcache rpc ids) tid =
                           fst (fetch_locked_dolo Map.empty rpc ids) tid"
    using same by blast
  have e: "merge_holders (fst (fetch_locked_dolo lcache rpc ids)) vote_weights holders =
         merge_holders (fst (fetch_locked_dolo Map.empty rpc ids)) vote_weights holders"
  proof (rule merge_holders_cong)
    fix h tid assume "h \<in> set holders" and "tid \<in> set (token_ids h)"
    then have "tid \<in> set ids" using held by blast
    then show "fst (fetch_locked_dolo lcache rpc ids) tid =
               fst (fetch_locked_dolo Map.empty rpc ids) tid" by (rule same)
  qed
  show ?thesis using a b c d e by (intro conjI)
qed

theorem C1_resumable_witness:
  "map_sum id fst (early_exits_main warm_penalty_cache [exit_a, exit_b] sample_resolver) =
     map_sum id fst (early_exits_main Map.empty [exit_a, exit_b] sample_resolver)
   \<and> merge_holders (fst (fetch_locked_dolo warm_locked_cache sample_rpc [1, 2, 3])) Map.empty
        sample_holders =
     merge_holders (fst (fetch_locked_dolo Map.empty sample_rpc [1, 2, 3])) Map.empty
        sample_holders
   \<and> snd (fetch_locked_dolo warm_locked_cache sample_rpc [1, 2, 3]) = [[2, 3]]"
proof -
  have h1: "\<forall>h p. warm_penalty_cache h = Some p \<longrightarrow> sample_resolver h = Inr (Some p)"
    by (simp add: warm_penalty_cache_def sample_resolver_def)
  have h2: "\<forall>tid l. warm_locked_cache tid = Some l \<longrightarrow> sample_resolve tid = Some l"
    by (simp add: warm_locked_cache_def sample_resolve_def)
  have h3: "\<forall>c \<in> set (snd (fetch_locked_dolo warm_locked_cache sample_rpc [1, 2, 3])).
      \<forall>tid \<in> set c. make_batch_call (sample_rpc c) c tid = sample_resolve tid"
    using warm_batch by (simp only: warm_chunks list.set ball_simps)
  have h4: "\<forall>c \<in> set (snd (fetch_locked_dolo Map.empty sample_rpc [1, 2, 3])).
      \<forall>tid \<in> set c. make_batch_call (sample_rpc c) c tid = sample_resolve tid"
    using cold_batch by (simp only: cold_chunks list.set ball_simps)
  have h5: "\<forall>h \<in> set sample_holders. set (token_ids h) \<subseteq> set [1, 2, 3]"
    by (simp add: sample_holders_def)
  note t = C1_resumable [OF h1 h2 h3 h4 h5, of "[exit_a, exit_b]" Map.empty]
  show ?thesis
    using t [THEN conjunct2, THEN conjunct1]
      t [THEN conjunct2, THEN conjunct2, THEN conjunct2, THEN conjunct2] warm_chunks
    by (intro conjI)
qed

subsection \<open>The aggregates of fetch\_early\_exits.py and update\_exercised\_usd.py\<close>

lemma stats_loop_fold:
  "stats_loop cache events (e, n, b, r, p, l) =
     (case early_totals (filter (\<lambda>x. is_early_exit (snd x)) (resolved_entries cache events))
             (b, r, p, l) of
        Inl err \<Rightarrow> Inl err
      | Inr (b', r', p', l') \<Rightarrow>
          Inr (e @ filter (\<lambda>x. is_early_exit (snd x)) (resolved_entries cache events),
               n @ filter (\<lambda>x. \<not> is_early_exit (snd x)) (resolved_entries cache events),
               b', r', p', l'))"
proof (induction events arbitrary: e n b r p l)
  case Nil
  show ?case by (simp add: resolved_entries_def List.map_filter_simps)
next
  case (Cons ev events)
  show ?case
  proof (cases "cache (ev_tx_hash ev)")
    case None
    then have re: "resolved_entries cache (ev # events) = resolved_entries cache events"
      by (simp add: resolved_entries_def List.map_filter_simps)
    show ?thesis unfolding re using None Cons.IH by simp
  next
    case (Some pen)
    then have re: "resolved_entries cache (ev # events) = (ev, pen) # resolved_entries cache events"
      by (simp add: resolved_entries_def List.map_filter_simps)
    show ?thesis
    proof (cases "is_early_exit pen")
      case True
      show ?thesis
        unfolding re using Some True Cons.IH by (simp split: sum.splits prod.splits)
    next
      case False
      show ?thesis
        unfolding re using Some False Cons.IH by (simp split: sum.splits prod.splits)
    qed
  qed
qed

lemma compute_stats_recomputed: "compute_stats cache events = recomputed_stats cache events"
  by (simp add: compute_stats_def recomputed_stats_def Let_def stats_loop_fold
      split: sum.splits prod.splits)

lemma early_exits_main_output:
  assumes "early_exits_main cache events resolver = Inr (out, cache', calls)"
  shows "compute_stats cache' events = Inr out"
  using assms
  by (simp add: early_exits_main_def Let_def split: if_splits sum.splits prod.splits)

lemma exercise_txs_loop_sum:
  assumes "exercise_txs_loop receipt txs (u, c, m) = Inr (u', c', m')"
  shows "py_sum u (map PyFloat (List.map_filter
              (\<lambda>tx. case get_usdc_from_receipt (receipt (tx_hash tx)) of
                     Inr (Some a) \<Rightarrow> Some a | _ \<Rightarrow> None) txs)) = Inr u'
       \<and> c' = c + int (length (List.map_filter
              (\<lambda>tx. case get_usdc_from_receipt (receipt (tx_hash tx)) of
                     Inr (Some a) \<Rightarrow> Some a | _ \<Rightarrow> None) txs))"
  using assms
proof (induction txs arbitrary: u c m)
  case Nil
  then show ?case by (simp add: List.map_filter_simps)
next
  case (Cons tx txs)
  from Cons.prems obtain paid blk where
    g: "get_usdc_from_receipt (receipt (tx_hash tx)) = Inr paid" and
    b: "py_int (tx_blockNumber tx) = Some blk"
    by (auto split: sum.splits option.splits)
  show ?case
  proof (cases paid)
    case None
    with Cons.prems g b
    have "exercise_txs_loop receipt txs (u, c, max m blk) = Inr (u', c', m')" by simp
    from Cons.IH [OF this] show ?thesis using g None by (simp add: List.map_filter_simps)
  next
    case (Some a)
    with Cons.prems g b obtain u1 where
      a: "py_add u (PyFloat a) = Inr u1" and
      r: "exercise_txs_loop receipt txs (u1, c + 1, max m blk) = Inr (u', c', m')"
      by (auto split: sum.splits option.splits)
    from Cons.IH [OF r] show ?thesis using g Some a by (simp add: List.map_filter_simps)
  qed
qed

lemma update_exercised_usd_totals:
  assumes "update_exercised_usd_main existing new_txs receipt = Inr (Some r)"
  shows "(\<exists>new_usdc t. py_sum (PyInt 0) (map PyFloat (new_amounts receipt new_txs)) = Inr new_usdc
            \<and> py_add (total_usdc existing) new_usdc = Inr t
            \<and> total_usdc r = py_round t 2)
       \<and> total_txs r = total_txs existing + int (length (new_amounts receipt new_txs))"
proof -
  from assms obtain u c m m' t where
    l: "exercise_txs_loop receipt (filter is_exercise new_txs)
          (PyInt 0, total_txs existing, last_block existing) = Inr (u, c, m)" and
    t: "py_add (total_usdc existing) u = Inr t" and
    r: "r = \<lparr>total_usdc = py_round t 2, total_txs = c, last_block = m'\<rparr>"
    by (auto simp add: update_exercised_usd_main_def Let_def
        split: if_splits sum.splits prod.splits)
  note s = exercise_txs_loop_sum [OF l]
  have a: "py_sum (PyInt 0) (map PyFloat (new_amounts receipt new_txs)) = Inr u"
    using s by (simp add: new_amounts_def)
  have b: "total_txs r = total_txs existing + int (length (new_amounts receipt new_txs))"
    using s by (simp add: r new_amounts_def)
  have c: "total_usdc r = py_round t 2" by (simp add: r)
  show ?thesis using a t c b by blast
qed

lemma usdc_payment_amount:
  "get_usdc_from_receipt (exercise_receipt ''0xe1'') = Inr (Some (Finite 5))"
  by (simp add: get_usdc_from_receipt_def exercise_receipt_def usdc_payment_def
      USDC_E_CONTRACT_def TRANSFER_TOPIC_def VESTER_CONTRACT_def USDC_DECIMALS_def
      lower_def lower_char_def py_int16_def hex_body_def hex_digit_def strip_def py_space_def float_eval)

lemma small_payment_amount:
  "get_usdc_from_receipt (exercise_receipt ''0xe2'') =
     Inr (Some (Finite (5764607523034235 / 1152921504606846976)))"
  by (simp add: get_usdc_from_receipt_def exercise_receipt_def small_payment_def
      USDC_E_CONTRACT_def TRANSFER_TOPIC_def VESTER_CONTRACT_def USDC_DECIMALS_def
      lower_def lower_char_def py_int16_def hex_body_def hex_digit_def strip_def py_space_def float_eval)

lemma exercise_tx_fields:
  "is_exercise exercise_tx" "tx_hash exercise_tx = ''0xe1''"
  "py_int (tx_blockNumber exercise_tx) = Some 60"
  "py_int (timeStamp exercise_tx) = Some 1700000000"
  "is_exercise small_tx" "tx_hash small_tx = ''0xe2''"
  "py_int (tx_blockNumber small_tx) = Some 61"
  "py_int (timeStamp small_tx) = Some 1700000100"
  by (simp_all add: is_exercise_def exercise_tx_def small_tx_def EXERCISE_METHOD_ID_def
      py_int_def dec_body_def dec_digit_def strip_def py_space_def)

lemma earlier_run:
  "update_exercised_usd_main earlier_totals [exercise_tx] exercise_receipt =
     Inr (Some \<lparr>total_usdc = PyFloat (Finite 105), total_txs = 4, last_block = 60\<rparr>)"
  by (simp add: update_exercised_usd_main_def exercise_tx_fields usdc_payment_amount
      earlier_totals_def float_eval)

lemma fresh_run:
  "update_exercised_usd_main fresh_totals [exercise_tx] exercise_receipt =
     Inr (Some \<lparr>total_usdc = PyFloat (Finite 5), total_txs = 1, last_block = 60\<rparr>)"
  by (simp add: update_exercised_usd_main_def exercise_tx_fields usdc_payment_amount
      fresh_totals_def float_eval)

lemma small_run:
  "update_exercised_usd_main fresh_totals [small_tx] exercise_receipt =
     Inr (Some \<lparr>total_usdc = PyFloat (Finite (5764607523034235 / 576460752303423488)),
                total_txs = 1, last_block = 61\<rparr>)"
  by (simp add: update_exercised_usd_main_def exercise_tx_fields small_payment_amount
      fresh_totals_def float_eval)

lemma exercise_new_amounts: "new_amounts exercise_receipt [exercise_tx] = [Finite 5]"
  by (simp add: new_amounts_def exercise_tx_fields usdc_payment_amount List.map_filter_simps)

lemma warm_exits_run:
  "early_exits_main warm_penalty_cache [exit_a, exit_b] sample_resolver =
     (case compute_stats (warm_penalty_cache(''0xbb'' \<mapsto> penalty_b)) [exit_a, exit_b] of
        Inl e \<Rightarrow> Inl e
      | Inr out \<Rightarrow> Inr (out, warm_penalty_cache(''0xbb'' \<mapsto> penalty_b), [''0xbb'']))"
  unfolding warm_penalty_cache_def
  by (simp add: early_exits_main_def exit_a_def exit_b_def sample_resolver_def)

lemma warm_exits_stats:
  "compute_stats (warm_penalty_cache(''0xbb'' \<mapsto> penalty_b)) [exit_a, exit_b] =
     Inr (\<lparr>total_early_exits = 1, total_normal_exits = 1, total_withdrawals = 2,
           total_burn_fee_dolo = PyFloat (Finite 5), total_recoup_fee_dolo = PyFloat (Finite 0),
           total_penalty_dolo = PyFloat (Finite 5),
           total_original_locked = PyFloat (Finite 100),
           avg_penalty_pct = PyFloat (Finite 5)\<rparr>, [(exit_a, penalty_a)])"
  by (simp add: compute_stats_def warm_penalty_cache_def exit_a_def exit_b_def penalty_a_def
      penalty_b_def percentage_def float_eval)

text \<open>
  C2, as stated: for every run the persisted aggregate is a fold from scratch over the
  full accumulated item set and is never obtained by merging new items into the totals
  persisted before. update\_exercised\_usd.py keeps no item set: on the same newly fetched
  transaction (5 USDC in block 60) it persists 105.0 USDC in 4 transactions after totals
  of 100.0 USDC in 3 transactions, and 5.0 USDC in 1 transaction after the totals of a
  first run. The output is the earlier total plus the new amount, so the claim fails for
  this script.
\<close>

theorem C2_counterexample:
  "update_exercised_usd_main earlier_totals [exercise_tx] exercise_receipt =
     Inr (Some \<lparr>total_usdc = PyFloat (Finite 105), total_txs = 4, last_block = 60\<rparr>)
   \<and> update_exercised_usd_main fresh_totals [exercise_tx] exercise_receipt =
     Inr (Some \<lparr>total_usdc = PyFloat (Finite 5), total_txs = 1, last_block = 60\<rparr>)
   \<and> new_amounts exercise_receipt [exercise_tx] = [Finite 5]
   \<and> total_usdc earlier_totals = PyFloat (Finite 100) \<and> total_txs earlier_totals = 3"
  using earlier_run fresh_run exercise_new_amounts
  by (simp add: earlier_totals_def)

text \<open>
  C2, amended: fetch\_early\_exits.py recomputes its statistics and its list of early exits
  from scratch in every run, as a fold over all events with the penalty cache as it
  stands after the newly fetched receipts were added; no earlier output enters.
  update\_exercised\_usd.py merges incrementally: a run that saves persists
  \<^verbatim>\<open>round(total + new, 2)\<close>, where \<open>total\<close> is the total persisted before and \<open>new\<close> the
  float sum, from left to right and from the int 0, of the amounts of the newly fetched
  exercise transactions, and it persists the count persisted before plus their number.
\<close>

theorem C2_aggregates:
  "compute_stats cache events = recomputed_stats cache events
   \<and> (\<forall>out cache' calls.
        early_exits_main cache events resolver = Inr (out, cache', calls)
        \<longrightarrow> recomputed_stats cache' events = Inr out)
   \<and> (\<forall>r. update_exercised_usd_main existing new_txs receipt = Inr (Some r)
        \<longrightarrow> (\<exists>new_usdc t.
                py_sum (PyInt 0) (map PyFloat (new_amounts receipt new_txs)) = Inr new_usdc
              \<and> py_add (total_usdc existing) new_usdc = Inr t
              \<and> total_usdc r = py_round t 2)
          \<and> total_txs r = total_txs existing + int (length (new_amounts receipt new_txs)))"
proof -
  have p1: "compute_stats cache events = recomputed_stats cache events"
    by (rule compute_stats_recomputed)
  have p2: "\<forall>out cache' calls.
        early_exits_main cache events resolver = Inr (out, cache', calls)
        \<longrightarrow> recomputed_stats cache' events = Inr out"
    using early_exits_main_output by (simp add: compute_stats_recomputed [symmetric])
  have p3: "\<forall>r. update_exercised_usd_main existing new_txs receipt = Inr (Some r)
        \<longrightarrow> (\<exists>new_usdc t.
                py_sum (PyInt 0) (map PyFloat (new_amounts receipt new_txs)) = Inr new_usdc
              \<and> py_add (total_usdc existing) new_usdc = Inr t
              \<and> total_usdc r = py_round t 2)
          \<and> total_txs r = total_txs existing + int (length (new_amounts receipt new_txs))"
    using update_exercised_usd_totals by blast
  show ?thesis using p1 p2 p3 by (intro conjI)
qed

theorem C2_aggregates_witness:
  "early_exits_main warm_penalty_cache [exit_a, exit_b] sample_resolver =
     Inr ((\<lparr>total_early_exits = 1, total_normal_exits = 1, total_withdrawals = 2,
            total_burn_fee_dolo = PyFloat (Finite 5), total_recoup_fee_dolo = PyFloat (Finite 0),
            total_penalty_dolo = PyFloat (Finite 5),
            total_original_locked = PyFloat (Finite 100),
            avg_penalty_pct = PyFloat (Finite 5)\<rparr>, [(exit_a, penalty_a)]),
          warm_penalty_cache(''0xbb'' \<mapsto> penalty_b), [''0xbb''])
   \<and> recomputed_stats (warm_penalty_cache(''0xbb'' \<mapsto> penalty_b)) [exit_a, exit_b] =
     Inr (\<lparr>total_early_exits = 1, total_normal_exits = 1, total_withdrawals = 2,
           total_burn_fee_dolo = PyFloat (Finite 5), total_recoup_fee_dolo = PyFloat (Finite 0),
           total_penalty_dolo = PyFloat (Finite 5),
           total_original_locked = PyFloat (Finite 100),
           avg_penalty_pct = PyFloat (Finite 5)\<rparr>, [(exit_a, penalty_a)])
   \<and> update_exercised_usd_main earlier_totals [exercise_tx] exercise_receipt =
       Inr (Some \<lparr>total_usdc = PyFloat (Finite 105), total_txs = 4, last_block = 60\<rparr>)
   \<and> (\<exists>new_usdc t.
         py_sum (PyInt 0) (map PyFloat (new_amounts exercise_receipt [exercise_tx])) = Inr new_usdc
       \<and> py_add (total_usdc earlier_totals) new_usdc = Inr t
       \<and> PyFloat (Finite 105) = py_round t 2)
   \<and> update_exercised_usd_main fresh_totals [small_tx] exercise_receipt =
       Inr (Some \<lparr>total_usdc = PyFloat (Finite (5764607523034235 / 576460752303423488)),
                  total_txs = 1, last_block = 61\<rparr>)"
proof -
  note t = C2_aggregates [of warm_penalty_cache "[exit_a, exit_b]" sample_resolver
      earlier_totals "[exercise_tx]" exercise_receipt]
  have run: "early_exits_main warm_penalty_cache [exit_a, exit_b] sample_resolver =
     Inr ((\<lparr>total_early_exits = 1, total_normal_exits = 1, total_withdrawals = 2,
            total_burn_fee_dolo = PyFloat (Finite 5), total_recoup_fee_dolo = PyFloat (Finite 0),
            total_penalty_dolo = PyFloat (Finite 5),
            total_original_locked = PyFloat (Finite 100),
            avg_penalty_pct = PyFloat (Finite 5)\<rparr>, [(exit_a, penalty_a)]),
          warm_penalty_cache(''0xbb'' \<mapsto> penalty_b), [''0xbb''])"
    by (simp only: warm_exits_run warm_exits_stats sum.case)
  have a: "recomputed_stats (warm_penalty_cache(''0xbb'' \<mapsto> penalty_b)) [exit_a, exit_b] =
     Inr (\<lparr>total_early_exits = 1, total_normal_exits = 1, total_withdrawals = 2,
           total_burn_fee_dolo = PyFloat (Finite 5), total_recoup_fee_dolo = PyFloat (Finite 0),
           total_penalty_dolo = PyFloat (Finite 5),
           total_original_locked = PyFloat (Finite 100),
           avg_penalty_pct = PyFloat (Finite 5)\<rparr>, [(exit_a, penalty_a)])"
    using t [THEN conjunct2, THEN conjunct1, rule_format, OF run] .
  have b: "(\<exists>new_usdc t.
         py_sum (PyInt 0) (map PyFloat (new_amounts exercise_receipt [exercise_tx])) = Inr new_usdc
       \<and> py_add (total_usdc earlier_totals) new_usdc = Inr t
       \<and> total_usdc \<lparr>total_usdc = PyFloat (Finite 105), total_txs = 4, last_block = 60\<rparr>
           = py_round t 2)
      \<and> total_txs \<lparr>total_usdc = PyFloat (Finite 105), total_txs = 4, last_block = 60\<rparr> =
      total_txs earlier_totals + int (length (new_amounts exercise_receipt [exercise_tx]))"
    using t [THEN conjunct2, THEN conjunct2, rule_format, OF earlier_run] .
  then have b': "\<exists>new_usdc t.
         py_sum (PyInt 0) (map PyFloat (new_amounts exercise_receipt [exercise_tx])) = Inr new_usdc
       \<and> py_add (total_usdc earlier_totals) new_usdc = Inr t
       \<and> PyFloat (Finite 105) = py_round t 2"
    by simp
  show ?thesis using run a earlier_run b' small_run by (intro conjI)
qed

end
